theory Spec2Isabelle
  imports Complex_Main "HOL-Library.Sublist"
begin

section \<open>Python values, errors and the data model (models.py)\<close>

text \<open>
  The engine stores everything as Python dictionaries. A dictionary is an association
  list in insertion order with string keys; a float is carried as its printed literal,
  since the engine never computes with one (\<open>cost_usd\<close> of routing.py).
\<close>

datatype pyval =
    PNone
  | PBool bool
  | PInt int
  | PFloat string
  | PStr string
  | PList "pyval list"
  | PDict "(string \<times> pyval) list"

text \<open>The exceptions the modelled code can raise; the payload is the key or the path.\<close>

datatype py_error =
    KeyError string
  | UnboundLocalError string
  | ValueError string
  | IsADirectoryError string
  | NotADirectoryError string
  | FileExistsError string

fun dict_get :: "('k \<times> 'v) list \<Rightarrow> 'k \<Rightarrow> 'v option" where
  "dict_get [] k = None"
| "dict_get ((k', v) # kvs) k = (if k' = k then Some v else dict_get kvs k)"

fun dict_set :: "('k \<times> 'v) list \<Rightarrow> 'k \<Rightarrow> 'v \<Rightarrow> ('k \<times> 'v) list" where
  "dict_set [] k v = [(k, v)]"
| "dict_set ((k', v') # kvs) k v = (if k' = k then (k, v) # kvs else (k', v') # dict_set kvs k v)"

text \<open>\<open>d.get(k)\<close> on a value that is a dictionary; \<open>None\<close> for a missing key.\<close>

fun py_get :: "pyval \<Rightarrow> string \<Rightarrow> pyval option" where
  "py_get (PDict kvs) k = dict_get kvs k"
| "py_get _ k = None"

text \<open>Python truthiness, as \<open>if x:\<close> tests it.\<close>

fun truthy :: "pyval \<Rightarrow> bool" where
  "truthy PNone = False"
| "truthy (PBool b) = b"
| "truthy (PInt i) = (i \<noteq> 0)"
| "truthy (PFloat s) = (s \<noteq> ''0.0'')"
| "truthy (PStr s) = (s \<noteq> [])"
| "truthy (PList xs) = (xs \<noteq> [])"
| "truthy (PDict kvs) = (kvs \<noteq> [])"

record context_profile =
  cp_name :: string
  budget_tokens :: int

record edge =
  from_node :: string
  to_node :: string
  on :: "string list"
  parallel :: bool
  join :: "string option"

record graph =
  name :: string
  agents :: "string list"
  dag :: "edge list"
  policy_name :: "string option"

text \<open>A run; \<open>run_ident\<close> is the field \<open>id\<close> of the source.\<close>

record run =
  run_ident :: string
  graph :: string
  inputs :: pyval
  status :: string
  created_at :: string
  parent_run :: "string option"

record event =
  run_id :: string
  step :: string
  type :: string
  ts :: string
  data :: pyval

section \<open>Printing values: \<open>str\<close> of a container\<close>

definition digit_char :: "nat \<Rightarrow> char" where
  "digit_char d = ''0123456789'' ! d"

fun show_nat :: "nat \<Rightarrow> string" where
  "show_nat n =
     (if n < 10 then [digit_char n] else show_nat (n div 10) @ [digit_char (n mod 10)])"

definition show_int :: "int \<Rightarrow> string" where
  "show_int i = (if i < 0 then CHR ''-'' # show_nat (nat (- i)) else show_nat (nat i))"

fun join_with :: "string \<Rightarrow> string list \<Rightarrow> string" where
  "join_with sep [] = []"
| "join_with sep [x] = x"
| "join_with sep (x # y # ys) = x @ sep @ join_with sep (y # ys)"

definition escape_char :: "char \<Rightarrow> char \<Rightarrow> string" where
  "escape_char q c =
     (if c = CHR 0x5C then [CHR 0x5C, CHR 0x5C]
      else if c = q then [CHR 0x5C, q]
      else if c = CHR 0x0A then [CHR 0x5C, CHR ''n'']
      else if c = CHR 0x0D then [CHR 0x5C, CHR ''r'']
      else if c = CHR 0x09 then [CHR 0x5C, CHR ''t'']
      else [c])"

definition repr_str :: "string \<Rightarrow> string" where
  "repr_str s =
     (let q = (if CHR 0x27 \<in> set s \<and> CHR 0x22 \<notin> set s then CHR 0x22 else CHR 0x27)
      in q # concat (map (escape_char q) s) @ [q])"

text \<open>
  \<open>py_repr\<close> is Python's \<open>str\<close> on the values built from \<open>None\<close>, booleans, integers,
  lists, dictionaries and strings of printable ASCII. The engine's \<open>str\<close> is a parameter
  of the model (\<open>pystr\<close> below), so that the general theorems hold for every printer;
  \<open>py_repr\<close> instantiates it where a concrete run is evaluated.
\<close>

fun py_repr :: "pyval \<Rightarrow> string" where
  "py_repr PNone = ''None''"
| "py_repr (PBool b) = (if b then ''True'' else ''False'')"
| "py_repr (PInt i) = show_int i"
| "py_repr (PFloat s) = s"
| "py_repr (PStr s) = repr_str s"
| "py_repr (PList xs) = ''['' @ join_with '', '' (map py_repr xs) @ '']''"
| "py_repr (PDict kvs) =
     ''{'' @ join_with '', '' (map (\<lambda>(k, v). repr_str k @ '': '' @ py_repr v) kvs) @ ''}''"

section \<open>The environment of a run\<close>

datatype fsnode = File string | Dir

type_synonym filesystem = "string list \<Rightarrow> fsnode option"

text \<open>
  What the code takes from outside the repository: the absolute, normalised components of
  \<open>SAFE_ROOT\<close> (files.py line 5, computed from \<open>__file__\<close>), Python's \<open>str\<close> on
  containers, the reading of \<open>datetime.utcnow().isoformat()\<close> at the n-th call, and the
  pytest subprocess of tests.py (its return code and output, or the exception raised
  when it cannot be started).
\<close>

record env =
  SAFE_ROOT :: "string list"
  pystr :: "pyval \<Rightarrow> string"
  utcnow :: "nat \<Rightarrow> string"
  pytest :: "filesystem \<Rightarrow> py_error + (int \<times> string)"

section \<open>tools/files.py: \<open>files_read\<close> is \<open>files.read\<close>, \<open>files_write\<close> is \<open>files.write\<close>\<close>

fun split_on :: "char \<Rightarrow> string \<Rightarrow> string list" where
  "split_on c [] = [[]]"
| "split_on c (x # xs) =
     (if x = c then [] # split_on c xs
      else (case split_on c xs of [] \<Rightarrow> [[x]] | y # ys \<Rightarrow> (x # y) # ys))"

text \<open>pathlib drops empty and \<open>.\<close> components when it parses a path and keeps \<open>..\<close>.\<close>

definition parse_parts :: "string \<Rightarrow> string list" where
  "parse_parts p = filter (\<lambda>c. c \<noteq> [] \<and> c \<noteq> ''.'') (split_on CHR ''/'' p)"

definition is_absolute :: "string \<Rightarrow> bool" where
  "is_absolute p = (case p of [] \<Rightarrow> False | c # _ \<Rightarrow> c = CHR ''/'')"

text \<open>
  \<open>resolve()\<close> on a file system without symbolic links: \<open>..\<close> removes the last
  component and stays at the root.
\<close>

fun resolve_parts :: "string list \<Rightarrow> string list \<Rightarrow> string list" where
  "resolve_parts acc [] = acc"
| "resolve_parts acc (c # cs) =
     (if c = ''..'' then resolve_parts (butlast acc) cs else resolve_parts (acc @ [c]) cs)"

text \<open>\<open>(SAFE_ROOT / path).resolve()\<close>: an absolute \<open>path\<close> replaces the root.\<close>

definition resolve_under :: "string list \<Rightarrow> string \<Rightarrow> string list" where
  "resolve_under base p = resolve_parts (if is_absolute p then [] else base) (parse_parts p)"

definition path_str :: "string list \<Rightarrow> string" where
  "path_str ps = (if ps = [] then ''/'' else concat (map (\<lambda>c. CHR ''/'' # c) ps))"

text \<open>The test of lines 11 and 26: \<open>str(full_path).startswith(str(SAFE_ROOT))\<close>.\<close>

definition starts_with_root :: "env \<Rightarrow> string list \<Rightarrow> bool" where
  "starts_with_root e full_path = prefix (path_str (SAFE_ROOT e)) (path_str full_path)"

definition escape_error :: "string \<Rightarrow> py_error" where
  "escape_error p = ValueError (''path '' @ p @ '' escapes safe root'')"

definition files_read :: "env \<Rightarrow> filesystem \<Rightarrow> string \<Rightarrow> py_error + pyval" where
  "files_read e fs p =
     (let full_path = resolve_under (SAFE_ROOT e) p in
      if \<not> starts_with_root e full_path then Inl (escape_error p)
      else (case fs full_path of
              None \<Rightarrow> Inr (PDict [(''error'', PStr (''file not found: '' @ p))])
            | Some Dir \<Rightarrow> Inl (IsADirectoryError (path_str full_path))
            | Some (File c) \<Rightarrow> Inr (PDict [(''content'', PStr c), (''path'', PStr p)])))"

text \<open>
  \<open>mkdir(parents=True, exist_ok=True)\<close> on the parent of the target: it fails when an
  ancestor is a file, and otherwise every ancestor is a directory afterwards.
\<close>

definition is_file :: "fsnode option \<Rightarrow> bool" where
  "is_file n = (case n of Some (File c) \<Rightarrow> True | _ \<Rightarrow> False)"

definition mkdir_parents :: "filesystem \<Rightarrow> string list \<Rightarrow> filesystem \<times> py_error option" where
  "mkdir_parents fs d =
     (if list_ex (\<lambda>q. is_file (fs q)) (butlast (prefixes d))
        then (fs, Some (NotADirectoryError (path_str d)))
      else if is_file (fs d) then (fs, Some (FileExistsError (path_str d)))
      else (fold (\<lambda>q f. f(q \<mapsto> Dir)) (prefixes d) fs, None))"

definition files_write :: "env \<Rightarrow> filesystem \<Rightarrow> string \<Rightarrow> string \<Rightarrow> filesystem \<times> (py_error + pyval)" where
  "files_write e fs p c =
     (let full_path = resolve_under (SAFE_ROOT e) p in
      if \<not> starts_with_root e full_path then (fs, Inl (escape_error p))
      else (case mkdir_parents fs (butlast full_path) of
              (fs1, Some err) \<Rightarrow> (fs1, Inl err)
            | (fs1, None) \<Rightarrow>
                (if fs1 full_path = Some Dir then (fs1, Inl (IsADirectoryError (path_str full_path)))
                 else (fs1(full_path \<mapsto> File c),
                       Inr (PDict [(''ok'', PBool True), (''path'', PStr p),
                                   (''bytes'', PInt (int (length c)))])))))"

section \<open>tools/security.py and tools/tests.py\<close>

fun scan_text :: "string \<Rightarrow> string list \<Rightarrow> pyval" where
  "scan_text text [] = PDict [(''ok'', PBool True)]"
| "scan_text text (pattern # block_patterns) =
     (if sublist pattern text
        then PDict [(''error'', PStr (''blocked pattern found: '' @ pattern))]
      else scan_text text block_patterns)"

definition scan_repo :: pyval where
  "scan_repo = PDict [(''ok'', PBool True), (''issues'', PList [])]"

text \<open>
  \<open>str(e)\<close> of an exception. A \<open>KeyError\<close> prints the \<open>repr\<close> of its key; the text of
  an operating-system error is the platform's and is abbreviated to the path.
\<close>

fun error_str :: "py_error \<Rightarrow> string" where
  "error_str (KeyError k) = repr_str k"
| "error_str (UnboundLocalError v) =
     ''cannot access local variable '' @ repr_str v @ '' where it is not associated with a value''"
| "error_str (ValueError m) = m"
| "error_str (IsADirectoryError p) = ''Is a directory: '' @ repr_str p"
| "error_str (NotADirectoryError p) = ''Not a directory: '' @ repr_str p"
| "error_str (FileExistsError p) = ''File exists: '' @ repr_str p"

text \<open>
  \<open>tests.run\<close>: the output is cut to its last 2000 characters, and an exception of the
  pytest subprocess becomes a failed result. The optional \<open>pip install\<close> before it
  swallows its own failure and does not contribute to the result; it is left out.
\<close>

definition tests_run :: "env \<Rightarrow> filesystem \<Rightarrow> pyval" where
  "tests_run e fs =
     (case pytest e fs of
        Inl err \<Rightarrow>
          PDict [(''passed'', PBool False),
                 (''output'', PStr (''error running pytest: '' @ error_str err))]
      | Inr (returncode, output) \<Rightarrow>
          PDict [(''passed'', PBool (returncode = 0)),
                 (''output'', PStr (if length output > 2000
                                     then ''...'' @ drop (length output - 2000) output
                                     else output))])"

section \<open>routing.py\<close>

definition choose_model :: "int \<Rightarrow> string \<Rightarrow> pyval" where
  "choose_model tokens_needed stp =
     (if tokens_needed > 60000 \<or> stp \<in> set [''aggregator'', ''react'']
        then PDict [(''model'', PStr ''gpt-4.1''), (''tokens'', PInt tokens_needed),
                    (''cost_usd'', PFloat ''0.015''), (''step'', PStr stp)]
      else PDict [(''model'', PStr ''small-fast''), (''tokens'', PInt tokens_needed),
                  (''cost_usd'', PFloat ''0.0005''), (''step'', PStr stp)])"

section \<open>context.py\<close>

record manifest =
  sections :: "(string \<times> int) list"
  total_tokens :: int
  drops :: "string list"

text \<open>The dictionary \<open>{"bundle": ..., "manifest": ...}\<close> that \<open>compile_context\<close> returns
  (\<open>ctx_bundle\<close> and \<open>ctx_manifest\<close> are its two keys).\<close>

record compiled =
  ctx_bundle :: "(string \<times> pyval) list"
  ctx_manifest :: manifest

definition policy_docs :: pyval where
  "policy_docs = PDict [(''note'', PStr ''policy enforcement active''),
                        (''patterns_blocked'', PList [PStr ''eval(''])]"

definition scratch_entry :: "event \<Rightarrow> pyval" where
  "scratch_entry e = PDict [(''step'', PStr (step e)), (''type'', PStr (type e)), (''data'', data e)]"

text \<open>Line 11: \<open>events[-5:] if len(events) > 5 else events\<close>.\<close>

definition recent_events :: "event list \<Rightarrow> event list" where
  "recent_events evs = (if length evs > 5 then drop (length evs - 5) evs else evs)"

text \<open>Lines 17 to 22 and 24 to 29: a read that raises is skipped by the bare \<open>except\<close>.\<close>

definition try_snippet ::
  "env \<Rightarrow> filesystem \<Rightarrow> string \<Rightarrow> (string \<times> pyval) list \<Rightarrow> (string \<times> pyval) list" where
  "try_snippet e fs p snips =
     (case files_read e fs p of
        Inl err \<Rightarrow> snips
      | Inr d \<Rightarrow> (case py_get d ''content'' of None \<Rightarrow> snips | Some c \<Rightarrow> dict_set snips p c))"

definition gather_snippets :: "env \<Rightarrow> filesystem \<Rightarrow> pyval" where
  "gather_snippets e fs =
     PDict (try_snippet e fs ''tests/test_app.py'' (try_snippet e fs ''app.py'' []))"

text \<open>Lines 36 to 38: \<open>len(str(content)) // 4\<close>.\<close>

definition token_estimate :: "env \<Rightarrow> pyval \<Rightarrow> int" where
  "token_estimate e c = int (length (pystr e c)) div 4"

text \<open>\<open>s[:k]\<close>, where a negative \<open>k\<close> counts from the end.\<close>

definition py_slice_to :: "string \<Rightarrow> int \<Rightarrow> string" where
  "py_slice_to s k = (if 0 \<le> k then take (nat k) s else take (nat (int (length s) + k)) s)"

text \<open>
  Lines 41 to 61, on the three estimates: the result is the content and the estimate of
  \<open>repo_snippets\<close>, the total and the drops.
\<close>

definition enforce_budget ::
  "env \<Rightarrow> int \<Rightarrow> pyval \<Rightarrow> int \<Rightarrow> int \<Rightarrow> int \<Rightarrow> pyval \<times> int \<times> int \<times> string list" where
  "enforce_budget e budget repo_snippets est_scratch est_repo est_policy =
     (let total_tokens = est_scratch + est_repo + est_policy in
      if total_tokens > budget then
        (let trim_amount = total_tokens - budget in
         if est_repo > trim_amount then
           (let est_repo' = est_repo - trim_amount;
                max_chars = est_repo' * 4;
                repo_str = pystr e repo_snippets
            in if int (length repo_str) > max_chars
                 then (PStr (py_slice_to repo_str max_chars), est_repo', budget,
                       [''repo_snippets trimmed by ''
                          @ show_int (int (length repo_str) - max_chars) @ '' chars''])
               else (repo_snippets, est_repo', budget, []))
         else (PDict [], 0, est_scratch + est_policy, [''repo_snippets dropped entirely'']))
      else (repo_snippets, est_repo, total_tokens, []))"

text \<open>Lines 7 and 8: an unregistered profile has the default budget.\<close>

definition profile_budget :: "(string \<Rightarrow> context_profile option) \<Rightarrow> string \<Rightarrow> int" where
  "profile_budget context_profiles profile_name =
     (case context_profiles profile_name of None \<Rightarrow> 120000 | Some p \<Rightarrow> budget_tokens p)"

definition compile_context ::
  "env \<Rightarrow> filesystem \<Rightarrow> run \<Rightarrow> string \<Rightarrow> string \<Rightarrow> event list
     \<Rightarrow> (string \<Rightarrow> context_profile option) \<Rightarrow> compiled" where
  "compile_context e fs rn stp profile_name evs context_profiles =
     (let budget = profile_budget context_profiles profile_name;
          scratchpad = PList (map scratch_entry (recent_events evs));
          repo_snippets = gather_snippets e fs;
          est_scratch = token_estimate e scratchpad;
          est_repo = token_estimate e repo_snippets;
          est_policy = token_estimate e policy_docs
      in (case enforce_budget e budget repo_snippets est_scratch est_repo est_policy of
            (repo_content, est_repo', total_tok, drps) \<Rightarrow>
              \<lparr> ctx_bundle = [(''scratchpad'', scratchpad), (''repo_snippets'', repo_content),
                           (''policy_docs'', policy_docs)],
                ctx_manifest = \<lparr> sections = [(''scratchpad'', est_scratch),
                                          (''repo_snippets'', est_repo'),
                                          (''policy_docs'', est_policy)],
                             total_tokens = total_tok,
                             drops = drps \<rparr> \<rparr>))"

section \<open>engine.py: the stores and the journal\<close>

text \<open>
  The stores of the application (engine.py lines 11 to 15; the policy store is never
  read by the engine), the sample repository the file tools work on, what is on disk under
  \<open>./data\<close> (one journal file per run, its lines standing for the events they encode, and
  the artifacts by run and name), and the number of clock readings taken so far.
\<close>

record world =
  runs :: "string \<Rightarrow> run option"
  graphs :: "string \<Rightarrow> graph option"
  events :: "string \<Rightarrow> event list option"
  context_profiles :: "string \<Rightarrow> context_profile option"
  repo :: filesystem
  journal_files :: "string \<Rightarrow> event list"
  artifacts :: "string \<times> string \<Rightarrow> string option"
  ticks :: nat

text \<open>\<open>_events.get(run_id, [])\<close>.\<close>

definition events_of :: "world \<Rightarrow> string \<Rightarrow> event list" where
  "events_of w rid = (case events w rid of None \<Rightarrow> [] | Some evs \<Rightarrow> evs)"

text \<open>
  \<open>emit_event\<close> (lines 28 to 49) appends to the list in memory and to the file; the event
  it returns is never used by a caller.
\<close>

definition emit_event :: "env \<Rightarrow> world \<Rightarrow> string \<Rightarrow> string \<Rightarrow> string \<Rightarrow> pyval \<Rightarrow> world" where
  "emit_event e w rid stp event_type d =
     (let ev = \<lparr> run_id = rid, step = stp, type = event_type, ts = utcnow e (ticks w), data = d \<rparr>
      in w\<lparr> events := (events w)(rid \<mapsto> events_of w rid @ [ev]),
             journal_files := (journal_files w)(rid := journal_files w rid @ [ev]),
             ticks := Suc (ticks w) \<rparr>)"

definition save_artifact :: "world \<Rightarrow> string \<Rightarrow> string \<Rightarrow> string \<Rightarrow> world" where
  "save_artifact w rid nm c = w\<lparr> artifacts := (artifacts w)((rid, nm) \<mapsto> c) \<rparr>"

section \<open>engine.py: \<open>run_node\<close>\<close>

text \<open>\<open>s.replace(old, new)\<close> for a non-empty \<open>old\<close>.\<close>

function str_replace :: "string \<Rightarrow> string \<Rightarrow> string \<Rightarrow> string" where
  "str_replace [] old new = []"
| "str_replace (c # cs) old new =
     (if old \<noteq> [] \<and> prefix old (c # cs)
        then new @ str_replace (drop (length old) (c # cs)) old new
      else c # str_replace cs old new)"
  by pat_completeness auto
termination
  by (relation "measure (\<lambda>(s, old, new). length s)") auto

definition manifest_py :: "manifest \<Rightarrow> pyval" where
  "manifest_py m =
     PDict [(''sections'', PDict (map (\<lambda>(k, n). (k, PDict [(''token_estimate'', PInt n)])) (sections m))),
            (''total_tokens'', PInt (total_tokens m)),
            (''drops'', PList (map PStr (drops m)))]"

text \<open>
  Lines 129 to 133: the successful \<open>py_fixer\<close> patches of the journal;
  \<open>e["data"]["patch"]\<close> raises on a missing key.
\<close>

fun collect_patches :: "event list \<Rightarrow> py_error + pyval list" where
  "collect_patches [] = Inr []"
| "collect_patches (ev # evs) =
     (if step ev = ''py_fixer'' \<and> type ev = ''patch_created''
         \<and> (case py_get (data ev) ''success'' of None \<Rightarrow> False | Some v \<Rightarrow> truthy v)
      then (case py_get (data ev) ''patch'' of
              None \<Rightarrow> Inl (KeyError ''patch'')
            | Some pt \<Rightarrow> (case collect_patches evs of Inl err \<Rightarrow> Inl err | Inr ps \<Rightarrow> Inr (pt # ps)))
      else collect_patches evs)"

text \<open>\<open>json.dumps(patch, indent=2)\<close> of the constant patch of line 99.\<close>

definition py_fixer_patch :: pyval where
  "py_fixer_patch = PDict [(''file'', PStr ''app.py''), (''change'', PStr ''return 41 -> return 42'')]"

definition py_fixer_patch_json :: string where
  "py_fixer_patch_json =
     ''{'' @ [CHR 0x0A] @ ''  '' @ [CHR 0x22] @ ''file'' @ [CHR 0x22] @ '': '' @ [CHR 0x22] @ ''app.py''
       @ [CHR 0x22] @ '','' @ [CHR 0x0A] @ ''  '' @ [CHR 0x22] @ ''change'' @ [CHR 0x22] @ '': ''
       @ [CHR 0x22] @ ''return 41 -> return 42'' @ [CHR 0x22] @ [CHR 0x0A] @ ''}''"

definition test_answer_type :: string where
  "test_answer_type =
     [CHR 0x0A, CHR 0x0A] @ ''def test_answer_type():'' @ [CHR 0x0A] @ ''    from app import compute''
       @ [CHR 0x0A] @ ''    assert isinstance(compute(), int)'' @ [CHR 0x0A]"

text \<open>
  The handlers of the nodes (lines 86 to 167), one definition for each branch: the world
  after it, and the exception it raises or the result it returns. Where a handler
  returns, it has emitted its own event.
\<close>

definition planner_handler :: "env \<Rightarrow> world \<Rightarrow> string \<Rightarrow> string \<Rightarrow> world \<times> (py_error + pyval)" where
  "planner_handler e w rid node =
     (let result = PDict [(''target_files'', PList [PStr ''app.py'', PStr ''tests/test_app.py'']),
                          (''hint'', PStr ''test expects 42, app returns 41'')]
      in (emit_event e w rid node ''plan_ready'' result, Inr result))"

definition py_fixer_handler :: "env \<Rightarrow> world \<Rightarrow> string \<Rightarrow> string \<Rightarrow> world \<times> (py_error + pyval)" where
  "py_fixer_handler e w rid node =
     (case files_read e (repo w) ''app.py'' of
        Inl err \<Rightarrow> (w, Inl err)
      | Inr app_file \<Rightarrow>
          (case py_get app_file ''content'' of
             Some (PStr c) \<Rightarrow>
               (case files_write e (repo w) ''app.py'' (str_replace c ''return 41'' ''return 42'') of
                  (fs', Inl err) \<Rightarrow> (w\<lparr> repo := fs' \<rparr>, Inl err)
                | (fs', Inr written) \<Rightarrow>
                    (let w1 = save_artifact (w\<lparr> repo := fs' \<rparr>) rid ''py_fixer_patch.json''
                                py_fixer_patch_json;
                         result = PDict [(''patch'', py_fixer_patch), (''success'', PBool True)]
                     in (emit_event e w1 rid node ''patch_created'' result, Inr result)))
           | _ \<Rightarrow>
               (let result = PDict [(''error'', PStr ''app.py not found'')]
                in (emit_event e w rid node ''patch_created'' result, Inr result))))"

definition fe_fixer_handler :: "env \<Rightarrow> world \<Rightarrow> string \<Rightarrow> string \<Rightarrow> world \<times> (py_error + pyval)" where
  "fe_fixer_handler e w rid node =
     (let result = PDict [(''patch'', PNone), (''message'', PStr ''no frontend changes needed'')]
      in (emit_event e w rid node ''patch_created'' result, Inr result))"

definition test_writer_handler :: "env \<Rightarrow> world \<Rightarrow> string \<Rightarrow> string \<Rightarrow> world \<times> (py_error + pyval)" where
  "test_writer_handler e w rid node =
     (case files_read e (repo w) ''tests/test_app.py'' of
        Inl err \<Rightarrow> (w, Inl err)
      | Inr test_file \<Rightarrow>
          (case py_get test_file ''content'' of
             Some (PStr c) \<Rightarrow>
               (if \<not> sublist ''assert answer == 42'' c then
                  (case files_write e (repo w) ''tests/test_app.py'' (c @ test_answer_type) of
                     (fs', Inl err) \<Rightarrow> (w\<lparr> repo := fs' \<rparr>, Inl err)
                   | (fs', Inr written) \<Rightarrow>
                       (let result = PDict [(''added'', PStr ''test_answer_type''),
                                            (''success'', PBool True)]
                        in (emit_event e (w\<lparr> repo := fs' \<rparr>) rid node ''test_updated'' result,
                            Inr result)))
                else
                  (let result = PDict [(''message'', PStr ''tests already complete'')]
                   in (emit_event e w rid node ''test_updated'' result, Inr result)))
           | _ \<Rightarrow>
               (let result = PDict [(''error'', PStr ''test file not found'')]
                in (emit_event e w rid node ''test_updated'' result, Inr result))))"

text \<open>
  \<open>run_events\<close> is the list the caller passed, which is the journal itself once the
  run has one, so that the aggregator reads the journal as it is when it runs.
\<close>

definition aggregator_handler ::
  "env \<Rightarrow> world \<Rightarrow> string \<Rightarrow> string \<Rightarrow> event list \<Rightarrow> world \<times> (py_error + pyval)" where
  "aggregator_handler e w rid node run_events =
     (case collect_patches run_events of
        Inl err \<Rightarrow> (w, Inl err)
      | Inr patches \<Rightarrow>
          (let result = PDict [(''selected_patch'', (case patches of [] \<Rightarrow> PNone | pt # _ \<Rightarrow> pt))]
           in (emit_event e w rid node ''patch_selected'' result, Inr result)))"

definition tester_handler :: "env \<Rightarrow> world \<Rightarrow> string \<Rightarrow> string \<Rightarrow> world \<times> (py_error + pyval)" where
  "tester_handler e w rid node =
     (let result = tests_run e (repo w)
      in if (case py_get result ''passed'' of None \<Rightarrow> False | Some v \<Rightarrow> truthy v)
           then (emit_event e w rid node ''tests_passed'' result, Inr result)
         else (emit_event e w rid node ''tests_failed'' result, Inr result))"

definition security_handler :: "env \<Rightarrow> world \<Rightarrow> string \<Rightarrow> string \<Rightarrow> world \<times> (py_error + pyval)" where
  "security_handler e w rid node =
     (let result = scan_repo
      in if (case py_get result ''ok'' of None \<Rightarrow> False | Some v \<Rightarrow> truthy v)
           then (emit_event e w rid node ''security_ok'' result, Inr result)
         else (emit_event e w rid node ''security_failed'' result, Inr result))"

definition release_handler :: "env \<Rightarrow> world \<Rightarrow> string \<Rightarrow> string \<Rightarrow> world \<times> (py_error + pyval)" where
  "release_handler e w rid node =
     (case files_read e (repo w) ''CHANGELOG.md'' of
        Inl err \<Rightarrow> (w, Inl err)
      | Inr changelog \<Rightarrow>
          (let c = (case py_get changelog ''content'' of
                      Some (PStr c0) \<Rightarrow> c0
                    | _ \<Rightarrow> ''# Changelog'' @ [CHR 0x0A, CHR 0x0A]);
               c' = c @ [CHR 0x0A] @ ''- '' @ utcnow e (ticks w) @ '': auto-release from run '' @ rid
                      @ [CHR 0x0A];
               w1 = w\<lparr> ticks := Suc (ticks w) \<rparr>
           in (case files_write e (repo w1) ''CHANGELOG.md'' c' of
                 (fs', Inl err) \<Rightarrow> (w1\<lparr> repo := fs' \<rparr>, Inl err)
               | (fs', Inr written) \<Rightarrow>
                   (let result = PDict [(''released'', PBool True)]
                    in (emit_event e (w1\<lparr> repo := fs' \<rparr>) rid node ''release_complete'' result,
                        Inr result)))))"

definition unknown_handler :: "env \<Rightarrow> world \<Rightarrow> string \<Rightarrow> string \<Rightarrow> world \<times> (py_error + pyval)" where
  "unknown_handler e w rid node =
     (let result = PDict [(''error'', PStr (''unknown node: '' @ node))]
      in (emit_event e w rid node ''error'' result, Inr result))"

text \<open>The \<open>if\<close>/\<open>elif\<close> chain of lines 86 to 167.\<close>

definition handler :: "env \<Rightarrow> world \<Rightarrow> string \<Rightarrow> string \<Rightarrow> event list \<Rightarrow> world \<times> (py_error + pyval)" where
  "handler e w rid node run_events =
     (if node = ''planner'' then planner_handler e w rid node
      else if node = ''py_fixer'' then py_fixer_handler e w rid node
      else if node = ''fe_fixer'' then fe_fixer_handler e w rid node
      else if node = ''test_writer'' then test_writer_handler e w rid node
      else if node = ''aggregator'' then aggregator_handler e w rid node run_events
      else if node = ''tester'' then tester_handler e w rid node
      else if node = ''security'' then security_handler e w rid node
      else if node = ''release'' then release_handler e w rid node
      else unknown_handler e w rid node)"

text \<open>
  \<open>run_node\<close> (lines 61 to 172). There is no \<open>try\<close> in it: an exception of the handler
  leaves it before line 170, and \<open>_runs[run_id]\<close> raises for an unknown run.
\<close>

definition run_node :: "env \<Rightarrow> world \<Rightarrow> string \<Rightarrow> string \<Rightarrow> world \<times> (py_error + pyval)" where
  "run_node e w rid node =
     (case runs w rid of
        None \<Rightarrow> (w, Inl (KeyError rid))
      | Some rn \<Rightarrow>
          (let ctx = compile_context e (repo w) rn node ''reviewer-default'' (events_of w rid)
                       (context_profiles w);
               tokens = total_tokens (ctx_manifest ctx);
               model_choice = choose_model tokens node;
               w1 = emit_event e w rid node ''context_compiled''
                      (PDict [(''manifest'', manifest_py (ctx_manifest ctx)), (''model'', model_choice)]);
               run_events = (case events w rid of None \<Rightarrow> [] | Some evs \<Rightarrow> events_of w1 rid)
           in (case handler e w1 rid node run_events of
                 (w2, Inl err) \<Rightarrow> (w2, Inl err)
               | (w2, Inr result) \<Rightarrow>
                   (emit_event e w2 rid node ''node_done'' (PDict [(''result'', result)]), Inr result))))"

section \<open>engine.py: \<open>execute_graph\<close>\<close>

text \<open>\<open>d.get(k, [])\<close> on a dictionary of lists.\<close>

definition dict_items :: "('k \<times> 'v list) list \<Rightarrow> 'k \<Rightarrow> 'v list" where
  "dict_items d k = (case dict_get d k of None \<Rightarrow> [] | Some vs \<Rightarrow> vs)"

text \<open>Lines 190 to 205, one edge at a time; \<open>edge.get("join")\<close> holds for a non-empty string.\<close>

definition add_adj :: "(string \<times> edge list) list \<Rightarrow> edge \<Rightarrow> (string \<times> edge list) list" where
  "add_adj adj ed = dict_set adj (from_node ed) (dict_items adj (from_node ed) @ [ed])"

definition add_in_degree :: "(string \<times> nat) list \<Rightarrow> edge \<Rightarrow> (string \<times> nat) list" where
  "add_in_degree ind ed =
     (let ind1 = dict_set ind (to_node ed)
                   ((case dict_get ind (to_node ed) of None \<Rightarrow> 0 | Some d \<Rightarrow> d) + 1)
      in (case dict_get ind1 (from_node ed) of None \<Rightarrow> dict_set ind1 (from_node ed) 0 | Some d \<Rightarrow> ind1))"

definition declares_join :: "edge \<Rightarrow> bool" where
  "declares_join ed = (case join ed of None \<Rightarrow> False | Some j \<Rightarrow> j \<noteq> [])"

definition add_join :: "(string \<times> string list) list \<Rightarrow> edge \<Rightarrow> (string \<times> string list) list" where
  "add_join jg ed =
     (if declares_join ed then dict_set jg (to_node ed) (dict_items jg (to_node ed) @ [from_node ed])
      else jg)"

definition build_adj :: "edge list \<Rightarrow> (string \<times> edge list) list" where
  "build_adj es = foldl add_adj [] es"

definition build_in_degree :: "edge list \<Rightarrow> (string \<times> nat) list" where
  "build_in_degree es = foldl add_in_degree [] es"

definition build_join_groups :: "edge list \<Rightarrow> (string \<times> string list) list" where
  "build_join_groups es = foldl add_join [] es"

text \<open>Line 208: the start nodes, in the order of the dictionary.\<close>

definition start_nodes :: "(string \<times> nat) list \<Rightarrow> string list" where
  "start_nodes ind = map fst (filter (\<lambda>(n, d). d = 0) ind)"

text \<open>
  The variables of the loop. \<open>completed\<close> is a Python set: the list holds each node once,
  in the order it was added, which is also the order \<open>list(completed)\<close> is given in
  \<open>run_completed\<close> (Python leaves that order open).
\<close>

record sched =
  world :: world
  ready :: "string list"
  completed :: "string list"
  completed_nodes :: "(string \<times> pyval) list"

definition set_add :: "string list \<Rightarrow> string \<Rightarrow> string list" where
  "set_add xs x = (if x \<in> set xs then xs else xs @ [x])"

definition mark_completed :: "sched \<Rightarrow> string \<Rightarrow> pyval \<Rightarrow> sched" where
  "mark_completed st node result =
     st\<lparr> completed := set_add (completed st) node,
         completed_nodes := dict_set (completed_nodes st) node result \<rparr>"

text \<open>
  Lines 223 to 226 and 255 to 258: a node that is not completed is run and marked; the
  exception of \<open>run_node\<close> leaves the scheduler's variables as they were.
\<close>

definition run_if_needed :: "env \<Rightarrow> string \<Rightarrow> sched \<Rightarrow> string \<Rightarrow> sched + (sched \<times> py_error)" where
  "run_if_needed e rid st node =
     (if node \<notin> set (completed st) then
        (case run_node e (world st) rid node of
           (w', Inl err) \<Rightarrow> Inr (st\<lparr> world := w' \<rparr>, err)
         | (w', Inr result) \<Rightarrow> Inl (mark_completed (st\<lparr> world := w' \<rparr>) node result))
      else Inl st)"

text \<open>
  Lines 219 to 235: the \<open>for\<close> over \<open>ready\<close>. A node whose first outgoing edge is parallel
  is run at once if it is not completed, and all its children are scheduled; the first
  other node ends the loop as \<open>sequential_node\<close>. The result is the state, the scheduled
  children and the sequential node, or the exception of a node.
\<close>

fun scan_ready ::
  "env \<Rightarrow> string \<Rightarrow> (string \<times> edge list) list \<Rightarrow> string list \<Rightarrow> sched \<Rightarrow> string list
     \<Rightarrow> (sched \<times> string list \<times> string option) + (sched \<times> py_error)" where
  "scan_ready e rid adj [] st parallel_nodes = Inl (st, parallel_nodes, None)"
| "scan_ready e rid adj (node # rest) st parallel_nodes =
     (let edges = dict_items adj node in
      if edges \<noteq> [] \<and> parallel (hd edges) then
        (case run_if_needed e rid st node of
           Inr (st', err) \<Rightarrow> Inr (st', err)
         | Inl st' \<Rightarrow> scan_ready e rid adj rest st' (parallel_nodes @ map to_node edges))
      else Inl (st, parallel_nodes, Some node))"

text \<open>
  Line 239: \<open>asyncio.gather\<close> on coroutines that never suspend runs them one after the
  other, in order, each to its end; an exception of one does not stop the others, and
  the first exception is the one \<open>gather\<close> raises.
\<close>

fun gather :: "env \<Rightarrow> string \<Rightarrow> string list \<Rightarrow> world \<Rightarrow> world \<times> (py_error + pyval) list" where
  "gather e rid [] w = (w, [])"
| "gather e rid (child # children) w =
     (case run_node e w rid child of
        (w', r) \<Rightarrow> (case gather e rid children w' of (w'', rs) \<Rightarrow> (w'', r # rs)))"

fun first_error :: "(py_error + pyval) list \<Rightarrow> py_error option" where
  "first_error [] = None"
| "first_error (Inl err # rs) = Some err"
| "first_error (Inr v # rs) = first_error rs"

fun mark_all :: "sched \<Rightarrow> (string \<times> (py_error + pyval)) list \<Rightarrow> sched" where
  "mark_all st [] = st"
| "mark_all st ((node, Inr result) # rest) = mark_all (mark_completed st node result) rest"
| "mark_all st ((node, Inl err) # rest) = mark_all st rest"

text \<open>Lines 248 to 251.\<close>

fun check_joins :: "(string \<times> string list) list \<Rightarrow> string list \<Rightarrow> string list \<Rightarrow> string list" where
  "check_joins [] done rdy = rdy"
| "check_joins ((join_node, sources) # rest) done rdy =
     check_joins rest done
       (if list_all (\<lambda>s. s \<in> set done) sources \<and> join_node \<notin> set done then rdy @ [join_node]
        else rdy)"

text \<open>Lines 270 to 273: the gate of an edge with a non-empty \<open>on\<close>.\<close>

definition edge_matches :: "event list \<Rightarrow> string \<Rightarrow> edge \<Rightarrow> bool" where
  "edge_matches evs node ed = list_ex (\<lambda>ev. step ev = node \<and> type ev \<in> set (on ed)) evs"

text \<open>Lines 263 to 284: the edges of the sequential node, one after the other.\<close>

fun enqueue_children ::
  "event list \<Rightarrow> (string \<times> string list) list \<Rightarrow> string list \<Rightarrow> string \<Rightarrow> edge list \<Rightarrow> string list
     \<Rightarrow> string list" where
  "enqueue_children evs jg done node [] rdy = rdy"
| "enqueue_children evs jg done node (ed # eds) rdy =
     (let child = to_node ed in
      if on ed \<noteq> [] \<and> \<not> edge_matches evs node ed then enqueue_children evs jg done node eds rdy
      else (case dict_get jg child of
              Some sources \<Rightarrow>
                (if list_all (\<lambda>s. s \<in> set done) sources
                   then (if child \<notin> set rdy \<and> child \<notin> set done
                           then enqueue_children evs jg done node eds (rdy @ [child])
                         else enqueue_children evs jg done node eds rdy)
                 else enqueue_children evs jg done node eds rdy)
            | None \<Rightarrow>
                (if child \<notin> set rdy \<and> child \<notin> set done
                   then enqueue_children evs jg done node eds (rdy @ [child])
                 else enqueue_children evs jg done node eds rdy)))"

datatype step_result = Continue sched | Break sched | Raise sched py_error

text \<open>One turn of the \<open>while\<close> of line 213 (lines 214 to 286).\<close>

definition sched_iter ::
  "env \<Rightarrow> string \<Rightarrow> (string \<times> edge list) list \<Rightarrow> (string \<times> string list) list \<Rightarrow> sched
     \<Rightarrow> step_result" where
  "sched_iter e rid adj jg st =
     (case scan_ready e rid adj (ready st) st [] of
        Inr (st1, err) \<Rightarrow> Raise st1 err
      | Inl (st1, parallel_nodes, sequential_node) \<Rightarrow>
          (if parallel_nodes \<noteq> [] then
             (case gather e rid parallel_nodes (world st1) of
                (w2, results) \<Rightarrow>
                  (case first_error results of
                     Some err \<Rightarrow> Raise (st1\<lparr> world := w2 \<rparr>) err
                   | None \<Rightarrow>
                       (let st2 = mark_all (st1\<lparr> world := w2 \<rparr>) (zip parallel_nodes results);
                            rdy = filter (\<lambda>n. n \<notin> set parallel_nodes \<and> n \<notin> set (completed st2)) (ready st2)
                        in Continue (st2\<lparr> ready := check_joins jg (completed st2) rdy \<rparr>))))
           else (case sequential_node of
                   None \<Rightarrow> Break st1
                 | Some node \<Rightarrow>
                     (if node = [] then Break st1
                      else (case run_if_needed e rid st1 node of
                              Inr (st2, err) \<Rightarrow> Raise st2 err
                            | Inl st2 \<Rightarrow>
                                Continue (st2\<lparr> ready :=
                                  enqueue_children (events_of (world st2) rid) jg (completed st2) node
                                    (dict_items adj node) (remove1 node (ready st2)) \<rparr>))))))"

text \<open>
  The turn of the loop that starts in \<open>st\<close> is a sequential step on \<open>node\<close>: the \<open>for\<close> of
  line 219 schedules no child and stops at \<open>node\<close>.
\<close>

definition sequential_turn ::
  "env \<Rightarrow> string \<Rightarrow> (string \<times> edge list) list \<Rightarrow> sched \<Rightarrow> string \<Rightarrow> bool" where
  "sequential_turn e rid adj st node =
     (case scan_ready e rid adj (ready st) st [] of
        Inl (st1, parallel_nodes, sequential_node) \<Rightarrow>
          parallel_nodes = [] \<and> sequential_node = Some node
      | Inr x \<Rightarrow> False)"

text \<open>The journal holds \<open>node_done\<close> of a node.\<close>

definition has_done :: "event list \<Rightarrow> string \<Rightarrow> bool" where
  "has_done evs n = list_ex (\<lambda>ev. step ev = n \<and> type ev = ''node_done'') evs"

text \<open>Every node of \<open>completed\<close> has its \<open>node_done\<close> in the journal of the run.\<close>

definition done_recorded :: "string \<Rightarrow> sched \<Rightarrow> bool" where
  "done_recorded rid st = list_all (has_done (events_of (world st) rid)) (completed st)"

text \<open>
  The \<open>while\<close> of line 213. It ends: each turn completes a node that was not completed,
  or else removes from \<open>ready\<close> an entry that is already completed.
\<close>

function exec_loop ::
  "env \<Rightarrow> string \<Rightarrow> (string \<times> edge list) list \<Rightarrow> (string \<times> string list) list \<Rightarrow> sched
     \<Rightarrow> sched \<times> py_error option" where
  "exec_loop e rid adj jg st =
     (if ready st = [] then (st, None)
      else (case sched_iter e rid adj jg st of
              Continue st' \<Rightarrow> exec_loop e rid adj jg st'
            | Break st' \<Rightarrow> (st', None)
            | Raise st' err \<Rightarrow> (st', Some err)))"
  by pat_completeness auto

text \<open>The measure of the loop: the nodes still to complete, then the stale entries of \<open>ready\<close>.\<close>

definition adj_targets :: "(string \<times> edge list) list \<Rightarrow> string set" where
  "adj_targets adj = (\<Union>(n, es) \<in> set adj. to_node ` set es)"

definition universe :: "(string \<times> edge list) list \<Rightarrow> (string \<times> string list) list \<Rightarrow> sched \<Rightarrow> string set" where
  "universe adj jg st = set (ready st) \<union> adj_targets adj \<union> fst ` set jg"

definition pending_count :: "(string \<times> edge list) list \<Rightarrow> (string \<times> string list) list \<Rightarrow> sched \<Rightarrow> nat" where
  "pending_count adj jg st = card (universe adj jg st - set (completed st))"

definition stale_count :: "sched \<Rightarrow> nat" where
  "stale_count st = length (filter (\<lambda>n. n \<in> set (completed st)) (ready st))"

lemma dict_get_mem: "dict_get d k = Some v \<Longrightarrow> (k, v) \<in> set d"
  by (induction d) (auto split: if_splits)

lemma dict_items_targets: "to_node ` set (dict_items adj n) \<subseteq> adj_targets adj"
proof
  fix x assume "x \<in> to_node ` set (dict_items adj n)"
  then obtain ed where ed: "ed \<in> set (dict_items adj n)" "x = to_node ed" by auto
  then obtain es where es: "dict_get adj n = Some es" "ed \<in> set es"
    by (cases "dict_get adj n") (auto simp: dict_items_def)
  then have "(n, es) \<in> set adj" by (simp add: dict_get_mem)
  with es ed show "x \<in> adj_targets adj" unfolding adj_targets_def by blast
qed

lemma set_set_add [simp]: "set (set_add xs x) = insert x (set xs)"
  by (auto simp: set_add_def)

lemma mark_completed_simps [simp]:
  "ready (mark_completed st n r) = ready st"
  "world (mark_completed st n r) = world st"
  "set (completed (mark_completed st n r)) = insert n (set (completed st))"
  by (simp_all add: mark_completed_def)

lemma run_if_needed_props:
  "run_if_needed e rid st node = Inl st' \<Longrightarrow>
     ready st' = ready st \<and> set (completed st') = insert node (set (completed st))
     \<and> (node \<in> set (completed st) \<longrightarrow> st' = st)"
  by (auto simp: run_if_needed_def insert_absorb split: if_splits prod.splits sum.splits)

lemma scan_ready_props:
  "scan_ready e rid adj rdy st pn = Inl (st1, pn1, sq) \<Longrightarrow>
     ready st1 = ready st
     \<and> set (completed st) \<subseteq> set (completed st1)
     \<and> set (completed st1) \<subseteq> set (completed st) \<union> set rdy
     \<and> (\<forall>n. sq = Some n \<longrightarrow> n \<in> set rdy)
     \<and> (\<exists>extra. pn1 = pn @ extra \<and> set extra \<subseteq> adj_targets adj
           \<and> (extra = [] \<longrightarrow> completed st1 = completed st \<and> world st1 = world st)
           \<and> (extra \<noteq> [] \<longrightarrow> (\<exists>p \<in> set rdy. p \<in> set (completed st1))))"
proof (induction rdy arbitrary: st pn)
  case Nil
  then show ?case by simp
next
  case (Cons node rest)
  let ?edges = "dict_items adj node"
  let ?ch = "map to_node ?edges"
  show ?case
  proof (cases "?edges \<noteq> [] \<and> parallel (hd ?edges)")
    case False
    with Cons.prems show ?thesis by (auto simp: Let_def)
  next
    case par: True
    have tg: "set ?ch \<subseteq> adj_targets adj"
      using dict_items_targets[of adj node] by simp
    have ne: "?ch \<noteq> []" using par by simp
    obtain st' where rec: "scan_ready e rid adj rest st' (pn @ ?ch) = Inl (st1, pn1, sq)"
      and st': "ready st' = ready st" "set (completed st') = insert node (set (completed st))"
      using Cons.prems par run_if_needed_props[of e rid st node]
      by (auto simp: Let_def split: sum.splits)
    from Cons.IH[OF rec] obtain extra where IH: "ready st1 = ready st'"
      "set (completed st') \<subseteq> set (completed st1)"
      "set (completed st1) \<subseteq> set (completed st') \<union> set rest"
      "\<forall>n. sq = Some n \<longrightarrow> n \<in> set rest"
      "pn1 = (pn @ ?ch) @ extra" "set extra \<subseteq> adj_targets adj"
      by auto
    have "pn1 = pn @ (?ch @ extra)" using IH(5) by simp
    moreover have "set (?ch @ extra) \<subseteq> adj_targets adj" using tg IH(6) by simp
    moreover have "?ch @ extra \<noteq> []" using ne by simp
    moreover have "node \<in> set (completed st1)" using IH(2) st'(2) by auto
    ultimately show ?thesis using IH st' by (intro conjI exI[of _ "?ch @ extra"]) auto
  qed
qed

lemma mark_all_props:
  "ready (mark_all st zs) = ready st \<and> world (mark_all st zs) = world st
   \<and> set (completed st) \<subseteq> set (completed (mark_all st zs))
   \<and> set (completed (mark_all st zs)) \<subseteq> set (completed st) \<union> fst ` set zs"
  by (induction st zs rule: mark_all.induct) auto

lemma check_joins_set: "set (check_joins jg done rdy) \<subseteq> set rdy \<union> fst ` set jg"
  by (induction jg "done" rdy rule: check_joins.induct) (auto split: if_splits)

lemma check_joins_stale:
  "filter (\<lambda>n. n \<in> set done) (check_joins jg done rdy) = filter (\<lambda>n. n \<in> set done) rdy"
  by (induction jg "done" rdy rule: check_joins.induct) auto

lemma enqueue_children_set:
  "set (enqueue_children evs jg done node eds rdy) \<subseteq> set rdy \<union> to_node ` set eds"
proof (induction eds arbitrary: rdy)
  case Nil
  then show ?case by simp
next
  case (Cons ed eds)
  have "set (enqueue_children evs jg done node eds rdy) \<subseteq> set rdy \<union> to_node ` set eds"
    and "set (enqueue_children evs jg done node eds (rdy @ [to_node ed]))
           \<subseteq> set (rdy @ [to_node ed]) \<union> to_node ` set eds"
    using Cons.IH by blast+
  then show ?case
    by (cases "dict_get jg (to_node ed)") (auto simp: Let_def)
qed

lemma enqueue_children_stale:
  "filter (\<lambda>n. n \<in> set done) (enqueue_children evs jg done node eds rdy)
     = filter (\<lambda>n. n \<in> set done) rdy"
proof (induction eds arbitrary: rdy)
  case Nil
  then show ?case by simp
next
  case (Cons ed eds)
  show ?case
    by (cases "dict_get jg (to_node ed)") (simp_all add: Let_def Cons.IH)
qed

lemma zip_fst_sub: "fst ` set (zip xs ys) \<subseteq> set xs"
  by (auto dest: set_zip_leftD)

lemma filter_remove1_length:
  "P x \<Longrightarrow> x \<in> set xs \<Longrightarrow> length (filter P (remove1 x xs)) < length (filter P xs)"
  by (induction xs) auto

lemma finite_universe: "finite (universe adj jg st)"
  by (auto simp: universe_def adj_targets_def)

lemma sched_iter_decreases:
  assumes "sched_iter e rid adj jg st = Continue st'"
  shows "pending_count adj jg st' < pending_count adj jg st
         \<or> (pending_count adj jg st' \<le> pending_count adj jg st \<and> stale_count st' < stale_count st)"
proof -
  obtain st1 pn sq where scan: "scan_ready e rid adj (ready st) st [] = Inl (st1, pn, sq)"
    using assms by (auto simp: sched_iter_def split: sum.splits prod.splits)
  from scan_ready_props[OF scan] have sp:
    "ready st1 = ready st" "set (completed st) \<subseteq> set (completed st1)"
    "set (completed st1) \<subseteq> set (completed st) \<union> set (ready st)"
    "\<forall>n. sq = Some n \<longrightarrow> n \<in> set (ready st)"
    "set pn \<subseteq> adj_targets adj"
    "pn = [] \<longrightarrow> completed st1 = completed st \<and> world st1 = world st"
    "pn \<noteq> [] \<longrightarrow> (\<exists>p \<in> set (ready st). p \<in> set (completed st1))"
    by auto
  have key: "pending_count adj jg st' < pending_count adj jg st
         \<or> (pending_count adj jg st' \<le> pending_count adj jg st \<and> stale_count st' < stale_count st)"
    if sub: "set (ready st') \<subseteq> universe adj jg st"
      and mono: "set (completed st) \<subseteq> set (completed st')"
      and bound: "set (completed st') \<subseteq> universe adj jg st \<union> set (completed st)"
      and stale: "set (completed st') = set (completed st) \<Longrightarrow> stale_count st' < stale_count st"
    for st'
  proof -
    have U: "universe adj jg st' \<subseteq> universe adj jg st"
      using sub by (auto simp: universe_def)
    have le: "universe adj jg st' - set (completed st') \<subseteq> universe adj jg st - set (completed st)"
      using U mono by auto
    show ?thesis
    proof (cases "set (completed st') = set (completed st)")
      case True
      then show ?thesis using stale card_mono[OF _ le] finite_universe[of adj jg st]
        by (simp add: pending_count_def)
    next
      case False
      then obtain x where x: "x \<in> set (completed st')" "x \<notin> set (completed st)" using mono by auto
      then have "x \<in> universe adj jg st - set (completed st)" using bound by auto
      moreover have "x \<notin> universe adj jg st' - set (completed st')" using x by simp
      ultimately have "universe adj jg st' - set (completed st') \<subset> universe adj jg st - set (completed st)"
        using le by auto
      then show ?thesis using psubset_card_mono[of "universe adj jg st - set (completed st)"]
          finite_universe[of adj jg st] by (simp add: pending_count_def)
    qed
  qed
  show ?thesis
  proof (cases "pn = []")
    case False
    then obtain w2 results where g: "gather e rid pn (world st1) = (w2, results)"
      and fe: "first_error results = None"
      and st': "st' = (mark_all (st1\<lparr> world := w2 \<rparr>) (zip pn results))\<lparr> ready :=
          check_joins jg (completed (mark_all (st1\<lparr> world := w2 \<rparr>) (zip pn results)))
            (filter (\<lambda>n. n \<notin> set pn \<and> n \<notin> set (completed (mark_all (st1\<lparr> world := w2 \<rparr>) (zip pn results))))
               (ready (mark_all (st1\<lparr> world := w2 \<rparr>) (zip pn results)))) \<rparr>"
      using assms scan
      by (auto simp: sched_iter_def Let_def split: prod.splits option.splits)
    let ?st2 = "mark_all (st1\<lparr> world := w2 \<rparr>) (zip pn results)"
    have m0: "ready ?st2 = ready st1" "set (completed st1) \<subseteq> set (completed ?st2)"
      "set (completed ?st2) \<subseteq> set (completed st1) \<union> fst ` set (zip pn results)"
      using mark_all_props[of "st1\<lparr> world := w2 \<rparr>" "zip pn results"] by simp_all
    have m: "ready ?st2 = ready st" "set (completed st1) \<subseteq> set (completed ?st2)"
      "set (completed ?st2) \<subseteq> set (completed st1) \<union> set pn"
      using m0 sp(1) zip_fst_sub[of pn results] by (simp, blast, blast)
    have c': "completed st' = completed ?st2" by (simp add: st')
    have r': "ready st' = check_joins jg (completed ?st2)
        (filter (\<lambda>n. n \<notin> set pn \<and> n \<notin> set (completed ?st2)) (ready st))"
      using m(1) by (simp add: st')
    show ?thesis
    proof (rule key)
      show "set (ready st') \<subseteq> universe adj jg st"
        unfolding r'
        using check_joins_set[of jg "completed ?st2"
            "filter (\<lambda>n. n \<notin> set pn \<and> n \<notin> set (completed ?st2)) (ready st)"]
        by (auto simp: universe_def)
      show "set (completed st) \<subseteq> set (completed st')" using c' m sp by auto
      show "set (completed st') \<subseteq> universe adj jg st \<union> set (completed st)"
        using c' m sp by (auto simp: universe_def)
      show "stale_count st' < stale_count st" if eq: "set (completed st') = set (completed st)"
      proof -
        have "stale_count st' = 0"
          unfolding stale_count_def r' c' check_joins_stale by (simp add: filter_empty_conv)
        moreover obtain p where "p \<in> set (ready st)" "p \<in> set (completed st1)"
          using sp(7) False by auto
        then have "p \<in> set (filter (\<lambda>n. n \<in> set (completed st)) (ready st))"
          using m(2) c' eq by auto
        then have "0 < stale_count st" unfolding stale_count_def by (rule length_pos_if_in_set)
        ultimately show ?thesis by simp
      qed
    qed
  next
    case True
    with sp have same: "completed st1 = completed st" "world st1 = world st" by auto
    from assms scan True obtain node where sq: "sq = Some node" and nn: "node \<noteq> []"
      by (auto simp: sched_iter_def Let_def split: option.splits if_splits)
    have nr: "node \<in> set (ready st)" using sp(4) sq by simp
    from assms scan True sq nn obtain st2 where
      st2: "ready st2 = ready st" "set (completed st2) = insert node (set (completed st))"
      and st': "st' = st2\<lparr> ready := enqueue_children (events_of (world st2) rid) jg (completed st2) node
                 (dict_items adj node) (remove1 node (ready st2)) \<rparr>"
      using sp(1) same run_if_needed_props[of e rid st1 node]
      by (auto simp: sched_iter_def Let_def split: sum.splits)
    have c': "completed st' = completed st2" by (simp add: st')
    have r': "ready st' = enqueue_children (events_of (world st2) rid) jg (completed st2) node
                 (dict_items adj node) (remove1 node (ready st))"
      by (simp add: st' st2)
    show ?thesis
    proof (rule key)
      show "set (ready st') \<subseteq> universe adj jg st"
        unfolding r'
        using enqueue_children_set[of "events_of (world st2) rid" jg "completed st2" node
            "dict_items adj node" "remove1 node (ready st)"]
          dict_items_targets[of adj node] set_remove1_subset[of node "ready st"]
        by (auto simp: universe_def)
      show "set (completed st) \<subseteq> set (completed st')" using c' st2 by auto
      show "set (completed st') \<subseteq> universe adj jg st \<union> set (completed st)"
        using c' st2 nr by (auto simp: universe_def)
      show "stale_count st' < stale_count st" if eq: "set (completed st') = set (completed st)"
      proof -
        have nc: "node \<in> set (completed st)" using eq c' st2 by auto
        have "stale_count st' = length (filter (\<lambda>n. n \<in> set (completed st)) (remove1 node (ready st)))"
          unfolding stale_count_def r' c' enqueue_children_stale using eq c' by simp
        also have "\<dots> < stale_count st"
          unfolding stale_count_def using filter_remove1_length[of "\<lambda>n. n \<in> set (completed st)" node] nc nr
          by simp
        finally show ?thesis .
      qed
    qed
  qed
qed

termination exec_loop
proof (relation "inv_image (less_than <*lex*> less_than)
         (\<lambda>(e, rid, adj, jg, st). (pending_count adj jg st, stale_count st))")
  show "wf (inv_image (less_than <*lex*> less_than)
         (\<lambda>(e, rid, adj, jg, st). (pending_count adj jg st, stale_count st)))"
    by (intro wf_inv_image wf_lex_prod wf_less_than)
next
  fix e rid adj jg st st'
  assume "ready st \<noteq> []" and "sched_iter e rid adj jg st = Continue st'"
  then show "((e, rid, adj, jg, st'), (e, rid, adj, jg, st))
      \<in> inv_image (less_than <*lex*> less_than)
          (\<lambda>(e, rid, adj, jg, st). (pending_count adj jg st, stale_count st))"
    using sched_iter_decreases[of e rid adj jg st st'] by auto
qed

text \<open>\<open>run["status"] = s\<close>: the dictionary of the run is the one in the store.\<close>

definition set_status :: "world \<Rightarrow> string \<Rightarrow> string \<Rightarrow> world" where
  "set_status w rid s =
     (case runs w rid of None \<Rightarrow> w | Some rn \<Rightarrow> w\<lparr> runs := (runs w)(rid \<mapsto> rn\<lparr> status := s \<rparr>) \<rparr>)"

text \<open>Lines 291 to 294.\<close>

definition fail_run :: "env \<Rightarrow> world \<Rightarrow> string \<Rightarrow> py_error \<Rightarrow> world \<times> py_error option" where
  "fail_run e w rid err =
     (emit_event e (set_status w rid ''failed'') rid ''system'' ''run_failed''
        (PDict [(''error'', PStr (error_str err))]), Some err)"

text \<open>
  \<open>execute_graph\<close> (lines 175 to 294): the world after it and the exception it raises,
  if any. For an unknown run, line 179 raises inside the \<open>try\<close> and the handler itself
  fails on the unbound \<open>run\<close>.
\<close>

definition execute_graph :: "env \<Rightarrow> world \<Rightarrow> string \<Rightarrow> world \<times> py_error option" where
  "execute_graph e w rid =
     (case runs w rid of
        None \<Rightarrow> (w, Some (UnboundLocalError ''run''))
      | Some rn \<Rightarrow>
          (case graphs w (graph rn) of
             None \<Rightarrow> fail_run e w rid (KeyError (graph rn))
           | Some g \<Rightarrow>
               (let w1 = emit_event e (set_status w rid ''running'') rid ''system'' ''run_started''
                           (PDict [(''graph'', PStr (name g))]);
                    st0 = \<lparr> world = w1, ready = start_nodes (build_in_degree (dag g)),
                            completed = [], completed_nodes = [] \<rparr>
                in (case exec_loop e rid (build_adj (dag g)) (build_join_groups (dag g)) st0 of
                      (st, Some err) \<Rightarrow> fail_run e (world st) rid err
                    | (st, None) \<Rightarrow>
                        (emit_event e (set_status (world st) rid ''succeeded'') rid ''system''
                           ''run_completed''
                           (PDict [(''completed_nodes'', PList (map PStr (completed st)))]),
                         None)))))"

section \<open>engine.py: \<open>replay_from\<close>\<close>

definition replay_id :: "string \<Rightarrow> string \<Rightarrow> string" where
  "replay_id rid from_step = rid @ ''-replay-'' @ from_step"

text \<open>Lines 315 to 323: the events before the first one of \<open>from_step\<close>.\<close>

definition prefix_until :: "event list \<Rightarrow> string \<Rightarrow> event list" where
  "prefix_until evs from_step = takeWhile (\<lambda>ev. step ev \<noteq> from_step) evs"

text \<open>
  \<open>replay_from\<close> (lines 297 to 330): the world after it, and the exception or the id of
  the new run. The prefix is put in the store only; nothing is written to the journal
  file of the new run before \<open>execute_graph\<close> starts.
\<close>

definition replay_from :: "env \<Rightarrow> world \<Rightarrow> string \<Rightarrow> string \<Rightarrow> world \<times> (py_error + string)" where
  "replay_from e w rid from_step =
     (case runs w rid of
        None \<Rightarrow> (w, Inl (KeyError rid))
      | Some original_run \<Rightarrow>
          (let new_run_id = replay_id rid from_step;
               new_run = \<lparr> run_ident = new_run_id, graph = graph original_run,
                           inputs = inputs original_run, status = ''pending'',
                           created_at = utcnow e (ticks w), parent_run = Some rid \<rparr>;
               w1 = w\<lparr> runs := (runs w)(new_run_id \<mapsto> new_run), ticks := Suc (ticks w) \<rparr>;
               new_events = prefix_until (events_of w1 rid) from_step;
               w2 = w1\<lparr> events := (events w1)(new_run_id \<mapsto> new_events) \<rparr>
           in (case execute_graph e w2 new_run_id of
                 (w3, Some err) \<Rightarrow> (w3, Inl err)
               | (w3, None) \<Rightarrow> (w3, Inr new_run_id))))"

section \<open>Concrete inputs\<close>

text \<open>
  An environment whose \<open>str\<close> is \<open>py_repr\<close>, whose clock reads its own tick count and
  whose test suite passes; a run, a profile registry with a given budget, and a sample
  repository holding \<open>app.py\<close>.
\<close>

definition demo_env :: env where
  "demo_env = \<lparr> SAFE_ROOT = [''srv'', ''examples'', ''sample_repo''], pystr = py_repr,
                utcnow = show_nat, pytest = (\<lambda>fs. Inr (0, ''1 passed'')) \<rparr>"

definition demo_run :: "string \<Rightarrow> string \<Rightarrow> run" where
  "demo_run rid g = \<lparr> run_ident = rid, graph = g, inputs = PDict [], status = ''pending'',
                      created_at = ''t0'', parent_run = None \<rparr>"

definition demo_profiles :: "int \<Rightarrow> string \<Rightarrow> context_profile option" where
  "demo_profiles b =
     [''reviewer-default'' \<mapsto> \<lparr> cp_name = ''reviewer-default'', budget_tokens = b \<rparr>]"

definition demo_repo :: filesystem where
  "demo_repo =
     [[''srv'', ''examples'', ''sample_repo'', ''app.py''] \<mapsto> File ''def compute(): return 41'']"

text \<open>A directory beside the safe root whose name starts with the name of the safe root.\<close>

definition sibling_repo :: filesystem where
  "sibling_repo =
     [[''srv'', ''examples'', ''sample_repo_evil'', ''secret.txt''] \<mapsto> File ''s3cr3t'']"

text \<open>
  A world with one pending run \<open>run-1\<close> of a graph, an empty journal and the default
  profile; the steps and types of a journal; and the graphs the examples run: a chain of
  two nodes, a fan-out whose node also feeds a join, a join whose second edge is never
  satisfied, and a fan-out whose edge is gated on an event that is never emitted.
\<close>

definition edge_of :: "string \<Rightarrow> string \<Rightarrow> string list \<Rightarrow> bool \<Rightarrow> string option \<Rightarrow> edge" where
  "edge_of f t evs p j = \<lparr> from_node = f, to_node = t, on = evs, parallel = p, join = j \<rparr>"

definition demo_world :: "graph \<Rightarrow> filesystem \<Rightarrow> world" where
  "demo_world g fs =
     \<lparr> runs = [''run-1'' \<mapsto> demo_run ''run-1'' (name g)], graphs = [name g \<mapsto> g],
       events = [''run-1'' \<mapsto> []], context_profiles = demo_profiles 120000,
       repo = fs, journal_files = (\<lambda>r. []), artifacts = Map.empty, ticks = 0 \<rparr>"

definition trace :: "world \<Rightarrow> string \<Rightarrow> (string \<times> string) list" where
  "trace w rid = map (\<lambda>ev. (step ev, type ev)) (events_of w rid)"

definition chain_graph :: graph where
  "chain_graph = \<lparr> name = ''chain'', agents = [''planner'', ''fe_fixer''],
     dag = [edge_of ''planner'' ''fe_fixer'' [''plan_ready''] False None], policy_name = None \<rparr>"

definition chain_done :: world where
  "chain_done = fst (execute_graph demo_env (demo_world chain_graph Map.empty) ''run-1'')"


definition chain_replayed :: world where
  "chain_replayed = fst (replay_from demo_env chain_done ''run-1'' ''fe_fixer'')"

definition join_graph :: graph where
  "join_graph = \<lparr> name = ''join'', agents = [''planner'', ''fe_fixer'', ''security'', ''aggregator''],
     dag = [edge_of ''planner'' ''fe_fixer'' [] True None,
            edge_of ''planner'' ''aggregator'' [] False (Some ''all''),
            edge_of ''security'' ''aggregator'' [] False (Some ''all'')],
     policy_name = None \<rparr>"

definition gated_join_graph :: graph where
  "gated_join_graph = \<lparr> name = ''gated'', agents = [''planner'', ''fe_fixer'', ''aggregator''],
     dag = [edge_of ''planner'' ''aggregator'' [''plan_ready''] False (Some ''all''),
            edge_of ''fe_fixer'' ''aggregator'' [''never''] False (Some ''all'')],
     policy_name = None \<rparr>"

definition gated_fan_out_graph :: graph where
  "gated_fan_out_graph = \<lparr> name = ''fan'', agents = [''planner'', ''fe_fixer''],
     dag = [edge_of ''planner'' ''fe_fixer'' [''never''] True None], policy_name = None \<rparr>"

text \<open>The variables of the loop when the run of the chain starts.\<close>

definition chain_start :: sched where
  "chain_start = \<lparr> world = demo_world chain_graph Map.empty, ready = [''planner''],
                   completed = [], completed_nodes = [] \<rparr>"

section \<open>The token budget (context.py)\<close>

text \<open>The estimate as the specification words it: the ceiling of a quarter of the length.\<close>

definition spec_token_estimate :: "env \<Rightarrow> pyval \<Rightarrow> int" where
  "spec_token_estimate e c = \<lceil>real (length (pystr e c)) / 4\<rceil>"

lemmas context_defs =
  compile_context_def demo_profiles_def profile_budget_def token_estimate_def gather_snippets_def
  try_snippet_def files_read_def resolve_under_def is_absolute_def parse_parts_def
  starts_with_root_def path_str_def policy_docs_def recent_events_def enforce_budget_def
  repr_str_def escape_char_def py_slice_to_def show_int_def digit_char_def Let_def

lemma enforce_budget_total:
  "enforce_budget e b rs s r p = (c, r', t, d) \<Longrightarrow> t \<le> max b (s + p)"
  by (auto simp: enforce_budget_def Let_def split: if_splits)

lemma enforce_budget_drops:
  "enforce_budget e b rs s (int (length (pystr e rs)) div 4) p = (c, r', t, d) \<Longrightarrow>
   b < s + int (length (pystr e rs)) div 4 + p \<Longrightarrow> d \<noteq> []"
  by (auto simp: enforce_budget_def Let_def split: if_splits)

lemma enforce_budget_sum:
  "enforce_budget e b rs s r p = (c, r', t, d) \<Longrightarrow> t = s + r' + p"
  by (auto simp: enforce_budget_def Let_def split: if_splits)

lemma enforce_budget_fits:
  "s + r + p \<le> b \<Longrightarrow> enforce_budget e b rs s r p = (rs, r, s + r + p, [])"
  by (simp add: enforce_budget_def Let_def)

text \<open>
  C1, as stated, fails: with a budget of 10 tokens, no events and an empty repository,
  \<open>repo_snippets\<close> is dropped entirely and the total is the 17 tokens of \<open>policy_docs\<close>,
  which nothing trims.
\<close>

theorem compile_context_over_budget:
  "profile_budget (demo_profiles 10) ''reviewer-default'' = 10
   \<and> total_tokens (ctx_manifest (compile_context demo_env Map.empty (demo_run ''run-1'' ''g'')
         ''planner'' ''reviewer-default'' [] (demo_profiles 10))) = 17
   \<and> drops (ctx_manifest (compile_context demo_env Map.empty (demo_run ''run-1'' ''g'')
         ''planner'' ''reviewer-default'' [] (demo_profiles 10))) = [''repo_snippets dropped entirely'']"
  by (simp add: context_defs demo_env_def)

text \<open>
  C1, amended: the total of the manifest never exceeds the larger of the budget and the
  estimates of scratchpad and policy_docs together, so it is within the budget whenever
  those two sections fit; whenever the untrimmed total exceeds the budget, \<open>drops\<close> is
  not empty; and when \<open>repo_snippets\<close> is dropped entirely the total is the sum of the
  scratchpad and policy_docs estimates, whatever the budget.
\<close>

theorem compile_context_budget:
  "(let m = ctx_manifest (compile_context e fs rn stp pn evs cps);
        budget = profile_budget cps pn;
        s = int (length (pystr e (PList (map scratch_entry (recent_events evs))))) div 4;
        r = int (length (pystr e (gather_snippets e fs))) div 4;
        p = int (length (pystr e policy_docs)) div 4
    in total_tokens m \<le> max budget (s + p)
       \<and> (s + p \<le> budget \<longrightarrow> total_tokens m \<le> budget)
       \<and> (budget < s + r + p \<longrightarrow> drops m \<noteq> [])
       \<and> (budget < s + r + p \<and> r \<le> s + r + p - budget \<longrightarrow>
             total_tokens m = s + p \<and> drops m = [''repo_snippets dropped entirely'']))"
proof -
  define m where "m = ctx_manifest (compile_context e fs rn stp pn evs cps)"
  define budget where "budget = profile_budget cps pn"
  define s where "s = int (length (pystr e (PList (map scratch_entry (recent_events evs))))) div 4"
  define r where "r = int (length (pystr e (gather_snippets e fs))) div 4"
  define p where "p = int (length (pystr e policy_docs)) div 4"
  obtain c r' t d where eb: "enforce_budget e budget (gather_snippets e fs) s r p = (c, r', t, d)"
    by (cases "enforce_budget e budget (gather_snippets e fs) s r p") auto
  then have m: "total_tokens m = t" "drops m = d"
    by (simp_all add: m_def compile_context_def Let_def token_estimate_def s_def r_def p_def budget_def)
  have 1: "total_tokens m \<le> max budget (s + p)" using enforce_budget_total[OF eb] m by simp
  have 2: "budget < s + r + p \<longrightarrow> drops m \<noteq> []"
    using enforce_budget_drops[of e budget "gather_snippets e fs" s p c r' t d] eb m
    by (simp add: r_def)
  have 3: "budget < s + r + p \<and> r \<le> s + r + p - budget \<longrightarrow>
           total_tokens m = s + p \<and> drops m = [''repo_snippets dropped entirely'']"
    using eb m by (auto simp: enforce_budget_def Let_def split: if_splits)
  have 4: "s + p \<le> budget \<longrightarrow> total_tokens m \<le> budget" using 1 by linarith
  from 1 2 3 4 show ?thesis
    unfolding Let_def m_def budget_def s_def r_def p_def by blast
qed

text \<open>
  With a budget of 20 and \<open>app.py\<close> in the repository, the two untrimmed sections take 17
  tokens, \<open>repo_snippets\<close> is cut by 26 characters and the total is the budget.
\<close>

theorem compile_context_budget_witness:
  "17 \<le> profile_budget (demo_profiles 20) ''reviewer-default''
   \<and> total_tokens (ctx_manifest (compile_context demo_env demo_repo (demo_run ''run-1'' ''g'')
         ''planner'' ''reviewer-default'' [] (demo_profiles 20))) = 20
   \<and> drops (ctx_manifest (compile_context demo_env demo_repo (demo_run ''run-1'' ''g'')
         ''planner'' ''reviewer-default'' [] (demo_profiles 20)))
        = [''repo_snippets trimmed by 26 chars'']"
  using compile_context_budget[of demo_env demo_repo "demo_run ''run-1'' ''g''" "''planner''"
      "''reviewer-default''" "[]" "demo_profiles 20"]
  by (simp add: context_defs demo_env_def demo_repo_def)

text \<open>
  C8, as stated, fails: the empty scratchpad prints as two characters, whose ceiling of
  a quarter is 1, and the manifest says 0.
\<close>

theorem token_estimate_not_ceiling:
  "map_of (sections (ctx_manifest (compile_context demo_env Map.empty (demo_run ''run-1'' ''g'')
       ''planner'' ''reviewer-default'' [] (demo_profiles 120000)))) ''scratchpad'' = Some 0
   \<and> spec_token_estimate demo_env (PList (map scratch_entry (recent_events []))) = 1"
  by (simp add: context_defs demo_env_def spec_token_estimate_def ceiling_eq_iff)

text \<open>
  C8, amended: the estimate of a section is the length of its printed form divided by 4
  and rounded down. The manifest carries that for scratchpad and policy_docs always and
  for repo_snippets when the three fit the budget; its total is the sum of the three
  estimates it lists.
\<close>

theorem token_estimate_floor:
  "(let m = ctx_manifest (compile_context e fs rn stp pn evs cps);
        ls = int (length (pystr e (PList (map scratch_entry (recent_events evs)))));
        lr = int (length (pystr e (gather_snippets e fs)));
        lp = int (length (pystr e policy_docs))
    in map_of (sections m) ''scratchpad'' = Some (ls div 4)
       \<and> map_of (sections m) ''policy_docs'' = Some (lp div 4)
       \<and> total_tokens m = sum_list (map snd (sections m))
       \<and> (ls div 4 + lr div 4 + lp div 4 \<le> profile_budget cps pn \<longrightarrow>
             map_of (sections m) ''repo_snippets'' = Some (lr div 4)
             \<and> total_tokens m = ls div 4 + lr div 4 + lp div 4))"
proof -
  define b where "b = profile_budget cps pn"
  define rs where "rs = gather_snippets e fs"
  define s where "s = int (length (pystr e (PList (map scratch_entry (recent_events evs))))) div 4"
  define r where "r = int (length (pystr e rs)) div 4"
  define p where "p = int (length (pystr e policy_docs)) div 4"
  obtain c r' t d where eb: "enforce_budget e b rs s r p = (c, r', t, d)"
    by (cases "enforce_budget e b rs s r p") auto
  have m: "ctx_manifest (compile_context e fs rn stp pn evs cps) =
      \<lparr> sections = [(''scratchpad'', s), (''repo_snippets'', r'), (''policy_docs'', p)],
        total_tokens = t, drops = d \<rparr>"
    using eb by (simp add: compile_context_def Let_def token_estimate_def b_def rs_def s_def r_def p_def)
  have t: "t = s + r' + p" using enforce_budget_sum[OF eb] .
  have fits: "s + r + p \<le> b \<longrightarrow> r' = r"
    using eb enforce_budget_fits[of s r p b e rs] by auto
  show ?thesis
    unfolding Let_def m b_def[symmetric] rs_def[symmetric] s_def[symmetric] r_def[symmetric]
      p_def[symmetric]
    using t fits by simp
qed

text \<open>
  With the default budget nothing is trimmed: the three estimates are 0, 9 and 17, and the
  total is 26.
\<close>

theorem token_estimate_floor_witness:
  "int (length (pystr demo_env (PList []))) div 4
      + int (length (pystr demo_env (gather_snippets demo_env demo_repo))) div 4
      + int (length (pystr demo_env policy_docs)) div 4
        \<le> profile_budget (demo_profiles 120000) ''reviewer-default''
   \<and> sections (ctx_manifest (compile_context demo_env demo_repo (demo_run ''run-1'' ''g'')
        ''planner'' ''reviewer-default'' [] (demo_profiles 120000)))
       = [(''scratchpad'', 0), (''repo_snippets'', 9), (''policy_docs'', 17)]
   \<and> total_tokens (ctx_manifest (compile_context demo_env demo_repo (demo_run ''run-1'' ''g'')
        ''planner'' ''reviewer-default'' [] (demo_profiles 120000))) = 26"
  using token_estimate_floor[of demo_env demo_repo "demo_run ''run-1'' ''g''" "''planner''"
      "''reviewer-default''" "[]" "demo_profiles 120000"]
  by (simp add: context_defs demo_env_def demo_repo_def)

section \<open>Path safety (tools/files.py)\<close>

text \<open>
  C3 at the failing input: the path \<open>../sample_repo_evil/secret.txt\<close> resolves to a file
  that is not under the safe root, its printed form still starts with the printed safe
  root, and so \<open>files.read\<close> returns the content of that file and \<open>files.write\<close>
  overwrites it.
\<close>

theorem files_sibling_directory_escape:
  "resolve_under (SAFE_ROOT demo_env) ''../sample_repo_evil/secret.txt''
     = [''srv'', ''examples'', ''sample_repo_evil'', ''secret.txt'']
   \<and> \<not> prefix (SAFE_ROOT demo_env) (resolve_under (SAFE_ROOT demo_env) ''../sample_repo_evil/secret.txt'')
   \<and> files_read demo_env sibling_repo ''../sample_repo_evil/secret.txt''
       = Inr (PDict [(''content'', PStr ''s3cr3t''), (''path'', PStr ''../sample_repo_evil/secret.txt'')])
   \<and> fst (files_write demo_env sibling_repo ''../sample_repo_evil/secret.txt'' ''overwritten'')
         [''srv'', ''examples'', ''sample_repo_evil'', ''secret.txt''] = Some (File ''overwritten'')"
  by (simp add: files_read_def files_write_def resolve_under_def is_absolute_def parse_parts_def
      starts_with_root_def path_str_def demo_env_def sibling_repo_def mkdir_parents_def is_file_def
      Let_def)

section \<open>The journal during a run\<close>

text \<open>
  \<open>grows rid w w' nw\<close>: from \<open>w\<close> to \<open>w'\<close> the journal of \<open>rid\<close> gained exactly the events
  \<open>nw\<close>, all stamped with \<open>rid\<close>, and the other journals and the registries are as they
  were.
\<close>

definition grows :: "string \<Rightarrow> world \<Rightarrow> world \<Rightarrow> event list \<Rightarrow> bool" where
  "grows rid w w' nw \<longleftrightarrow>
     events_of w' rid = events_of w rid @ nw
     \<and> list_all (\<lambda>ev. run_id ev = rid) nw
     \<and> (\<forall>r. r \<noteq> rid \<longrightarrow> events w' r = events w r)
     \<and> (events w rid \<noteq> None \<longrightarrow> events w' rid \<noteq> None)
     \<and> runs w' = runs w \<and> graphs w' = graphs w \<and> context_profiles w' = context_profiles w"

lemma grows_refl: "grows rid w w []"
  by (simp add: grows_def)

lemma grows_trans: "grows rid w w1 t1 \<Longrightarrow> grows rid w1 w2 t2 \<Longrightarrow> grows rid w w2 (t1 @ t2)"
  by (auto simp: grows_def)

lemma grows_emit:
  "grows rid w (emit_event e w rid stp ty d)
     [\<lparr> run_id = rid, step = stp, type = ty, ts = utcnow e (ticks w), data = d \<rparr>]"
  by (simp add: grows_def emit_event_def events_of_def Let_def)

lemma emit_event_fields [simp]:
  "runs (emit_event e w rid stp ty d) = runs w"
  "graphs (emit_event e w rid stp ty d) = graphs w"
  "context_profiles (emit_event e w rid stp ty d) = context_profiles w"
  "repo (emit_event e w rid stp ty d) = repo w"
  "artifacts (emit_event e w rid stp ty d) = artifacts w"
  "ticks (emit_event e w rid stp ty d) = Suc (ticks w)"
  by (simp_all add: emit_event_def Let_def)

lemma events_of_emit [simp]:
  "events_of (emit_event e w rid stp ty d) r =
     (if r = rid
        then events_of w rid @ [\<lparr> run_id = rid, step = stp, type = ty, ts = utcnow e (ticks w), data = d \<rparr>]
      else events_of w r)"
  by (simp add: emit_event_def events_of_def Let_def)

lemma events_emit_other [simp]:
  "r \<noteq> rid \<Longrightarrow> events (emit_event e w rid stp ty d) r = events w r"
  by (simp add: emit_event_def Let_def)

lemma events_emit_some [simp]: "events (emit_event e w rid stp ty d) rid \<noteq> None"
  by (simp add: emit_event_def Let_def)

lemma events_of_updates [simp]:
  "events_of (w\<lparr> repo := fs \<rparr>) r = events_of w r"
  "events_of (w\<lparr> ticks := n \<rparr>) r = events_of w r"
  "events_of (save_artifact w r' nm c) r = events_of w r"
  by (simp_all add: events_of_def save_artifact_def)

lemma save_artifact_fields [simp]:
  "runs (save_artifact w r nm c) = runs w"
  "graphs (save_artifact w r nm c) = graphs w"
  "context_profiles (save_artifact w r nm c) = context_profiles w"
  "events (save_artifact w r nm c) = events w"
  "repo (save_artifact w r nm c) = repo w"
  "ticks (save_artifact w r nm c) = ticks w"
  by (simp_all add: save_artifact_def)

text \<open>
  What a handler leaves: nothing in the journal when it raises, and one event of its own,
  holding the result, when it returns.
\<close>

definition handler_post :: "string \<Rightarrow> string \<Rightarrow> world \<Rightarrow> world \<times> (py_error + pyval) \<Rightarrow> bool" where
  "handler_post rid node w out =
     (case out of
        (w', Inl err) \<Rightarrow> grows rid w w' []
      | (w', Inr result) \<Rightarrow>
          (\<exists>he. grows rid w w' [he] \<and> step he = node \<and> data he = result
                \<and> type he \<noteq> ''node_done'' \<and> type he \<noteq> ''context_compiled''))"

lemma handler_post_emit:
  "grows rid w w1 [] \<Longrightarrow> ty \<noteq> ''node_done'' \<Longrightarrow> ty \<noteq> ''context_compiled'' \<Longrightarrow>
   handler_post rid node w (emit_event e w1 rid node ty result, Inr result)"
  by (auto simp: handler_post_def grows_def)

lemma handler_post_raise: "grows rid w w1 [] \<Longrightarrow> handler_post rid node w (w1, Inl err)"
  by (simp add: handler_post_def)

lemma grows_nil_simps [simp]:
  "grows rid w w []"
  "grows rid w (w\<lparr> repo := fs \<rparr>) []"
  "grows rid w (w\<lparr> ticks := n \<rparr>) []"
  "grows rid w (w\<lparr> ticks := n, repo := fs \<rparr>) []"
  "grows rid w (save_artifact (w\<lparr> repo := fs \<rparr>) r nm c) []"
  by (simp_all add: grows_def events_of_def save_artifact_def)

lemma planner_post: "handler_post rid node w (planner_handler e w rid node)"
  by (simp add: planner_handler_def Let_def handler_post_emit)

lemma py_fixer_post: "handler_post rid node w (py_fixer_handler e w rid node)"
  by (simp add: py_fixer_handler_def Let_def handler_post_emit handler_post_raise
      split: sum.split option.split pyval.split prod.split)

lemma fe_fixer_post: "handler_post rid node w (fe_fixer_handler e w rid node)"
  by (simp add: fe_fixer_handler_def Let_def handler_post_emit)

lemma test_writer_post: "handler_post rid node w (test_writer_handler e w rid node)"
  by (simp add: test_writer_handler_def Let_def handler_post_emit handler_post_raise
      split: sum.split option.split pyval.split prod.split)

lemma aggregator_post: "handler_post rid node w (aggregator_handler e w rid node evs)"
  by (simp add: aggregator_handler_def Let_def handler_post_emit handler_post_raise split: sum.split)

lemma tester_post: "handler_post rid node w (tester_handler e w rid node)"
  by (simp add: tester_handler_def Let_def handler_post_emit)

lemma security_post: "handler_post rid node w (security_handler e w rid node)"
  by (simp add: security_handler_def Let_def handler_post_emit)

lemma release_post: "handler_post rid node w (release_handler e w rid node)"
  by (simp add: release_handler_def Let_def handler_post_emit handler_post_raise
      split: sum.split option.split pyval.split prod.split)

lemma unknown_post: "handler_post rid node w (unknown_handler e w rid node)"
  by (simp add: unknown_handler_def Let_def handler_post_emit)

lemma handler_journal: "handler_post rid node w (handler e w rid node evs)"
  unfolding handler_def
  by (simp only: planner_post py_fixer_post fe_fixer_post test_writer_post aggregator_post
      tester_post security_post release_post unknown_post if_split[where P="handler_post rid node w"] simp_thms)

lemma run_node_unknown_run: "runs w rid = None \<Longrightarrow> run_node e w rid node = (w, Inl (KeyError rid))"
  by (simp add: run_node_def)

lemma run_node_journal:
  assumes "runs w rid = Some rn" and "run_node e w rid node = (w', r)"
  shows "case r of
           Inl err \<Rightarrow> (\<exists>cc. grows rid w w' [cc] \<and> step cc = node \<and> type cc = ''context_compiled'')
         | Inr result \<Rightarrow>
             (\<exists>cc he nd. grows rid w w' [cc, he, nd]
                \<and> step cc = node \<and> type cc = ''context_compiled''
                \<and> step he = node \<and> data he = result
                \<and> type he \<noteq> ''node_done'' \<and> type he \<noteq> ''context_compiled''
                \<and> step nd = node \<and> type nd = ''node_done'' \<and> data nd = PDict [(''result'', result)])"
proof -
  let ?ctx = "compile_context e (repo w) rn node ''reviewer-default'' (events_of w rid)
                       (context_profiles w)"
  let ?w1 = "emit_event e w rid node ''context_compiled''
      (PDict [(''manifest'', manifest_py (ctx_manifest ?ctx)),
              (''model'', choose_model (total_tokens (ctx_manifest ?ctx)) node)])"
  let ?evs = "(case events w rid of None \<Rightarrow> [] | Some x \<Rightarrow> events_of ?w1 rid)"
  obtain w2 hr where h: "handler e ?w1 rid node ?evs = (w2, hr)"
    by (cases "handler e ?w1 rid node ?evs")
  have "\<exists>cc. grows rid w ?w1 [cc] \<and> step cc = node \<and> type cc = ''context_compiled''"
    by (auto simp: grows_def)
  then obtain cc where cc: "grows rid w ?w1 [cc]" "step cc = node" "type cc = ''context_compiled''"
    by auto
  have hp: "handler_post rid node ?w1 (w2, hr)" using handler_journal[of rid node ?w1 e ?evs] h by simp
  have rn: "run_node e w rid node =
      (case hr of Inl err \<Rightarrow> (w2, Inl err)
       | Inr result \<Rightarrow> (emit_event e w2 rid node ''node_done'' (PDict [(''result'', result)]), Inr result))"
    unfolding run_node_def Let_def using assms(1) h by (simp split: sum.splits)
  show ?thesis
  proof (cases hr)
    case (Inl err)
    then have "w' = w2" "r = Inl err" using rn assms(2) by auto
    moreover have "grows rid ?w1 w2 []" using hp Inl by (simp add: handler_post_def)
    ultimately have "grows rid w w' [cc]" using grows_trans[OF cc(1), of w2 "[]"] by simp
    then have "\<exists>cc. grows rid w w' [cc] \<and> step cc = node \<and> type cc = ''context_compiled''"
      using cc(2,3) by blast
    then show ?thesis using \<open>r = Inl err\<close> by simp
  next
    case (Inr result)
    then have w': "w' = emit_event e w2 rid node ''node_done'' (PDict [(''result'', result)])"
      and r: "r = Inr result" using rn assms(2) by auto
    from hp Inr obtain he where he: "grows rid ?w1 w2 [he]" "step he = node" "data he = result"
      "type he \<noteq> ''node_done''" "type he \<noteq> ''context_compiled''"
      by (auto simp: handler_post_def)
    have "grows rid w w2 [cc, he]" using grows_trans[OF cc(1) he(1)] by simp
    from grows_trans[OF this grows_emit[of rid w2 e node "''node_done''" "PDict [(''result'', result)]"]]
    have g: "grows rid w w' [cc, he, \<lparr> run_id = rid, step = node, type = ''node_done'',
             ts = utcnow e (ticks w2), data = PDict [(''result'', result)] \<rparr>]"
      by (simp add: w')
    have "\<exists>cc he nd. grows rid w w' [cc, he, nd]
                \<and> step cc = node \<and> type cc = ''context_compiled''
                \<and> step he = node \<and> data he = result
                \<and> type he \<noteq> ''node_done'' \<and> type he \<noteq> ''context_compiled''
                \<and> step nd = node \<and> type nd = ''node_done'' \<and> data nd = PDict [(''result'', result)]"
      apply (rule exI[of _ cc], rule exI[of _ he])
      apply (rule exI[of _ "\<lparr> run_id = rid, step = node, type = ''node_done'',
             ts = utcnow e (ticks w2), data = PDict [(''result'', result)] \<rparr>"])
      using g cc(2,3) he(2-5) by simp
    then show ?thesis by (simp add: r)
  qed
qed

definition journal_grows :: "string \<Rightarrow> world \<Rightarrow> world \<Rightarrow> bool" where
  "journal_grows rid w w' \<longleftrightarrow> (\<exists>nw. grows rid w w' nw)"

lemma journal_grows_refl [simp]: "journal_grows rid w w"
  unfolding journal_grows_def using grows_refl by blast

lemma journal_grows_trans:
  "journal_grows rid w w1 \<Longrightarrow> journal_grows rid w1 w2 \<Longrightarrow> journal_grows rid w w2"
  unfolding journal_grows_def using grows_trans by blast

lemma run_node_grows: "run_node e w rid node = (w', r) \<Longrightarrow> journal_grows rid w w'"
proof (cases "runs w rid")
  case None
  assume "run_node e w rid node = (w', r)"
  with None have "w' = w" by (simp add: run_node_unknown_run)
  then show ?thesis by simp
next
  case (Some rn)
  assume "run_node e w rid node = (w', r)"
  from run_node_journal[OF Some this] show ?thesis
    unfolding journal_grows_def by (cases r) auto
qed



lemma gather_grows: "gather e rid children w = (w', rs) \<Longrightarrow> journal_grows rid w w'"
proof (induction children arbitrary: w w' rs)
  case Nil
  then show ?case by auto
next
  case (Cons child children)
  obtain w1 r where r: "run_node e w rid child = (w1, r)" by (cases "run_node e w rid child")
  obtain w2 rs' where g: "gather e rid children w1 = (w2, rs')" by (cases "gather e rid children w1")
  have "w' = w2" using Cons.prems r g by simp
  then show ?case using run_node_grows[OF r] Cons.IH[OF g] journal_grows_trans by blast
qed

lemma mark_all_world [simp]: "world (mark_all st zs) = world st"
  by (induction st zs rule: mark_all.induct) (simp_all add: mark_completed_def)



lemma set_status_fields [simp]:
  "events (set_status w rid s) = events w"
  "events_of (set_status w rid s) r = events_of w r"
  "graphs (set_status w rid s) = graphs w"
  "rid' \<noteq> rid \<Longrightarrow> runs (set_status w rid s) rid' = runs w rid'"
  by (simp_all add: set_status_def events_of_def split: option.splits)








section \<open>The node executor (engine.py, \<open>run_node\<close>)\<close>





lemma security_handler_eval:
  "security_handler e w rid node = (emit_event e w rid node ''security_ok'' scan_repo, Inr scan_repo)"
  by (simp add: security_handler_def scan_repo_def Let_def)

text \<open>The join test of lines 278 and 279: a node with no join group is never held back.\<close>

definition join_ready :: "(string \<times> string list) list \<Rightarrow> string list \<Rightarrow> string \<Rightarrow> bool" where
  "join_ready jg done child =
     (case dict_get jg child of None \<Rightarrow> True | Some sources \<Rightarrow> list_all (\<lambda>s. s \<in> set done) sources)"

text \<open>
  C10: \<open>scan_repo\<close> is the constant ok result with no issues, so for a known run the
  security node returns it and appends \<open>context_compiled\<close>, \<open>security_ok\<close> and \<open>node_done\<close>,
  never \<open>security_failed\<close>. Hence the gate of any edge from \<open>security\<close> whose \<open>on\<close> holds
  \<open>security_ok\<close> is satisfied by the journal once security has run (the edge fires, in
  the sense of lines 267 to 275), and the sequential step that handles the edge
  enqueues its child, when the child is not held back by a join and is neither ready nor
  completed.
\<close>

theorem security_always_ok:
  assumes "runs w rid = Some rn"
  shows "(let out = run_node e w rid ''security'';
              new = drop (length (events_of w rid)) (events_of (fst out) rid)
          in scan_repo = PDict [(''ok'', PBool True), (''issues'', PList [])]
             \<and> snd out = Inr scan_repo
             \<and> events_of (fst out) rid = events_of w rid @ new
             \<and> map step new = [''security'', ''security'', ''security'']
             \<and> map type new = [''context_compiled'', ''security_ok'', ''node_done'']
             \<and> \<not> list_ex (\<lambda>ev. type ev = ''security_failed'') new
             \<and> (''security_ok'' \<in> set (on ed) \<longrightarrow>
                   edge_matches (events_of (fst out) rid) ''security'' ed)
             \<and> (''security_ok'' \<in> set (on ed) \<and> join_ready jg done (to_node ed)
                  \<and> to_node ed \<notin> set rdy \<and> to_node ed \<notin> set done \<longrightarrow>
                   enqueue_children (events_of (fst out) rid) jg done ''security'' [ed] rdy
                     = rdy @ [to_node ed]))"
proof -
  have h: "handler e w1 rid ''security'' evs
      = (emit_event e w1 rid ''security'' ''security_ok'' scan_repo, Inr scan_repo)" for w1 evs
    by (simp add: handler_def security_handler_eval)
  obtain w' where out: "run_node e w rid ''security'' = (w', Inr scan_repo)"
    and new: "\<exists>cc. step cc = ''security'' \<and> type cc = ''context_compiled'' \<and>
       events_of w' rid = events_of w rid @ [cc,
         \<lparr> run_id = rid, step = ''security'', type = ''security_ok'', ts = utcnow e (Suc (ticks w)), data = scan_repo \<rparr>,
         \<lparr> run_id = rid, step = ''security'', type = ''node_done'', ts = utcnow e (Suc (Suc (ticks w))),
           data = PDict [(''result'', scan_repo)] \<rparr>]"
    using assms by (simp add: run_node_def Let_def h)
  from new obtain cc where cc: "step cc = ''security''" "type cc = ''context_compiled''"
    and ev: "events_of w' rid = events_of w rid @ [cc,
         \<lparr> run_id = rid, step = ''security'', type = ''security_ok'', ts = utcnow e (Suc (ticks w)), data = scan_repo \<rparr>,
         \<lparr> run_id = rid, step = ''security'', type = ''node_done'', ts = utcnow e (Suc (Suc (ticks w))),
           data = PDict [(''result'', scan_repo)] \<rparr>]" by blast
  have m: "''security_ok'' \<in> set (on ed) \<Longrightarrow> edge_matches (events_of w' rid) ''security'' ed"
    by (simp add: edge_matches_def ev)
  show ?thesis
    using cc m unfolding Let_def out
    by (auto simp: ev scan_repo_def join_ready_def split: option.splits)
qed

text \<open>
  After the chain has run, \<open>security\<close> is run on the same run: it returns the scan result,
  the edge to \<open>release\<close> gated on \<open>security_ok\<close> matches, and \<open>release\<close> is enqueued.
\<close>

theorem security_always_ok_witness:
  "runs chain_done ''run-1'' = Some ((demo_run ''run-1'' ''chain'')\<lparr> status := ''succeeded'' \<rparr>)
   \<and> ''security_ok'' \<in> set (on (edge_of ''security'' ''release'' [''security_ok''] False None))
   \<and> snd (run_node demo_env chain_done ''run-1'' ''security'') = Inr scan_repo
   \<and> edge_matches (events_of (fst (run_node demo_env chain_done ''run-1'' ''security'')) ''run-1'')
        ''security'' (edge_of ''security'' ''release'' [''security_ok''] False None)
   \<and> enqueue_children (events_of (fst (run_node demo_env chain_done ''run-1'' ''security'')) ''run-1'')
        [] [''security''] ''security'' [edge_of ''security'' ''release'' [''security_ok''] False None] []
        = [''release'']"
proof -
  have h: "runs chain_done ''run-1'' = Some ((demo_run ''run-1'' ''chain'')\<lparr> status := ''succeeded'' \<rparr>)"
    by code_simp
  from security_always_ok[OF h, of demo_env "edge_of ''security'' ''release'' [''security_ok''] False None"
      "[]" "[''security'']" "[]"] h
  show ?thesis by (simp add: Let_def edge_of_def join_ready_def)
qed

section \<open>The scheduler (engine.py, \<open>execute_graph\<close>)\<close>

text \<open>
  C5 at the failing input: \<open>aggregator\<close> joins \<open>planner\<close> and \<open>security\<close> over two edges
  that declare \<open>join = "all"\<close> and are not parallel, and \<open>planner\<close> also fans out to
  \<open>fe_fixer\<close>. The fan-out of line 229 schedules every child of \<open>planner\<close>, so
  \<open>aggregator\<close> runs in the batch, before \<open>security\<close> has run at all.
\<close>

theorem fan_out_bypasses_join:
  "build_join_groups (dag join_graph) = [(''aggregator'', [''planner'', ''security''])]
   \<and> map (\<lambda>ed. (from_node ed, parallel ed, join ed))
         (filter (\<lambda>ed. to_node ed = ''aggregator'') (dag join_graph))
       = [(''planner'', False, Some ''all''), (''security'', False, Some ''all'')]
   \<and> snd (execute_graph demo_env (demo_world join_graph Map.empty) ''run-1'') = None
   \<and> trace (fst (execute_graph demo_env (demo_world join_graph Map.empty) ''run-1'')) ''run-1'' =
     [(''system'', ''run_started''),
      (''planner'', ''context_compiled''), (''planner'', ''plan_ready''), (''planner'', ''node_done''),
      (''fe_fixer'', ''context_compiled''), (''fe_fixer'', ''patch_created''), (''fe_fixer'', ''node_done''),
      (''aggregator'', ''context_compiled''), (''aggregator'', ''patch_selected''), (''aggregator'', ''node_done''),
      (''security'', ''context_compiled''), (''security'', ''security_ok''), (''security'', ''node_done''),
      (''system'', ''run_completed'')]"
  by code_simp

text \<open>
  C4, as stated, fails: the edge \<open>planner \<rightarrow> aggregator\<close> is gated on \<open>plan_ready\<close>, the
  journal of the finished run holds \<open>plan_ready\<close> of \<open>planner\<close>, and \<open>aggregator\<close> is never
  dispatched, because it also waits for \<open>fe_fixer\<close> in a join that is never enqueued.
\<close>

theorem gate_open_child_not_dispatched:
  "on (hd (dag gated_join_graph)) = [''plan_ready'']
   \<and> from_node (hd (dag gated_join_graph)) = ''planner''
   \<and> to_node (hd (dag gated_join_graph)) = ''aggregator''
   \<and> edge_matches (events_of (fst (execute_graph demo_env (demo_world gated_join_graph Map.empty) ''run-1'')) ''run-1'')
        ''planner'' (hd (dag gated_join_graph))
   \<and> \<not> list_ex (\<lambda>ev. step ev = ''aggregator'')
          (events_of (fst (execute_graph demo_env (demo_world gated_join_graph Map.empty) ''run-1'')) ''run-1'')
   \<and> snd (execute_graph demo_env (demo_world gated_join_graph Map.empty) ''run-1'') = None"
  by code_simp

lemma enqueue_children_mem:
  "c \<in> set (enqueue_children evs jg done node eds rdy) \<longleftrightarrow>
     c \<in> set rdy
     \<or> (c \<notin> set done \<and> join_ready jg done c
          \<and> list_ex (\<lambda>ed. to_node ed = c \<and> (on ed = [] \<or> edge_matches evs node ed)) eds)"
proof (induction eds arbitrary: rdy)
  case Nil
  then show ?case by simp
next
  case (Cons ed eds)
  show ?case
    by (cases "dict_get jg (to_node ed)") (auto simp: Let_def Cons.IH join_ready_def)
qed

lemma gather_length: "gather e rid children w = (w', rs) \<Longrightarrow> length rs = length children"
  by (induction children arbitrary: w w' rs) (auto split: prod.splits)

lemma mark_all_zip:
  "length rs = length pn \<Longrightarrow> first_error rs = None \<Longrightarrow>
     set pn \<subseteq> set (completed (mark_all st (zip pn rs)))"
proof (induction pn rs arbitrary: st rule: list_induct2')
  case (4 n pn r rs)
  then obtain v where r: "r = Inr v" by (cases r) auto
  with 4 have "set pn \<subseteq> set (completed (mark_all (mark_completed st n v) (zip pn rs)))" by simp
  moreover have "n \<in> set (completed (mark_all (mark_completed st n v) (zip pn rs)))"
    using mark_all_props[of "mark_completed st n v" "zip pn rs"] by auto
  ultimately show ?case using r by simp
qed simp_all

lemma check_joins_super: "set rdy \<subseteq> set (check_joins jg done rdy)"
  by (induction jg "done" rdy rule: check_joins.induct) auto

text \<open>A turn that continues loses no node: what was ready or completed is ready or completed.\<close>

lemma sched_iter_keeps:
  assumes "sched_iter e rid adj jg st = Continue st'"
  shows "set (ready st) \<union> set (completed st) \<subseteq> set (ready st') \<union> set (completed st')"
proof -
  obtain st1 pn sq where scan: "scan_ready e rid adj (ready st) st [] = Inl (st1, pn, sq)"
    using assms by (auto simp: sched_iter_def split: sum.splits prod.splits)
  from scan_ready_props[OF scan] have sp:
    "ready st1 = ready st" "set (completed st) \<subseteq> set (completed st1)"
    "\<forall>n. sq = Some n \<longrightarrow> n \<in> set (ready st)"
    by auto
  show ?thesis
  proof (cases "pn = []")
    case False
    then obtain w2 results where g: "gather e rid pn (world st1) = (w2, results)"
      and fe: "first_error results = None"
      and st': "st' = (mark_all (st1\<lparr> world := w2 \<rparr>) (zip pn results))\<lparr> ready :=
          check_joins jg (completed (mark_all (st1\<lparr> world := w2 \<rparr>) (zip pn results)))
            (filter (\<lambda>n. n \<notin> set pn \<and> n \<notin> set (completed (mark_all (st1\<lparr> world := w2 \<rparr>) (zip pn results))))
               (ready (mark_all (st1\<lparr> world := w2 \<rparr>) (zip pn results)))) \<rparr>"
      using assms scan
      by (auto simp: sched_iter_def Let_def split: prod.splits option.splits)
    let ?st2 = "mark_all (st1\<lparr> world := w2 \<rparr>) (zip pn results)"
    have len: "length results = length pn" using gather_length[OF g] .
    have pn: "set pn \<subseteq> set (completed ?st2)" using mark_all_zip[OF len fe] .
    have m: "ready ?st2 = ready st" "set (completed st1) \<subseteq> set (completed ?st2)"
      using mark_all_props[of "st1\<lparr> world := w2 \<rparr>" "zip pn results"] sp(1) by simp_all
    have c': "completed st' = completed ?st2" by (simp add: st')
    have r': "set (filter (\<lambda>n. n \<notin> set pn \<and> n \<notin> set (completed ?st2)) (ready st)) \<subseteq> set (ready st')"
      using check_joins_super[of "filter (\<lambda>n. n \<notin> set pn \<and> n \<notin> set (completed ?st2)) (ready st)"
          jg "completed ?st2"] m(1)
      by (simp add: st')
    show ?thesis
    proof
      fix x assume "x \<in> set (ready st) \<union> set (completed st)"
      then show "x \<in> set (ready st') \<union> set (completed st')"
        using r' pn m(2) sp(2) c' by (cases "x \<in> set pn \<or> x \<in> set (completed ?st2)") auto
    qed
  next
    case True
    from assms scan True obtain node where sq: "sq = Some node" and nn: "node \<noteq> []"
      by (auto simp: sched_iter_def Let_def split: option.splits if_splits)
    from assms scan True sq nn obtain st2 where
      st2: "ready st2 = ready st" "set (completed st2) = insert node (set (completed st1))"
      and st': "st' = st2\<lparr> ready := enqueue_children (events_of (world st2) rid) jg (completed st2) node
                 (dict_items adj node) (remove1 node (ready st2)) \<rparr>"
      using sp(1) run_if_needed_props[of e rid st1 node]
      by (auto simp: sched_iter_def Let_def split: sum.splits)
    have c': "completed st' = completed st2" by (simp add: st')
    have r': "set (remove1 node (ready st)) \<subseteq> set (ready st')"
      by (auto simp: st' st2 enqueue_children_mem)
    show ?thesis
    proof
      fix x assume "x \<in> set (ready st) \<union> set (completed st)"
      then show "x \<in> set (ready st') \<union> set (completed st')"
        using r' st2 sp(2) c' by (cases "x = node") auto
    qed
  qed
qed

text \<open>When the loop ends with \<open>ready\<close> empty, every node that was ready has been completed.\<close>

lemma exec_loop_completes_ready:
  "exec_loop e rid adj jg st = (st', r) \<Longrightarrow> ready st' = [] \<Longrightarrow> r = None \<Longrightarrow>
     set (ready st) \<union> set (completed st) \<subseteq> set (completed st')"
proof (induction e rid adj jg st rule: exec_loop.induct)
  case (1 e rid adj jg st)
  show ?case
  proof (cases "ready st = []")
    case True
    with "1.prems" show ?thesis by simp
  next
    case False
    show ?thesis
    proof (cases "sched_iter e rid adj jg st")
      case (Continue st1)
      with False "1.prems" have "exec_loop e rid adj jg st1 = (st', r)" by simp
      from "1.IH"[OF False Continue this "1.prems"(2,3)] sched_iter_keeps[OF Continue]
      show ?thesis by auto
    next
      case (Break st1)
      then have "ready st1 = ready st"
        using scan_ready_props[of e rid adj "ready st" st "[]"]
        by (auto simp: sched_iter_def Let_def split: sum.splits prod.splits option.splits if_splits)
      with Break False "1.prems" show ?thesis by simp
    next
      case (Raise st1 err)
      with False "1.prems" show ?thesis by simp
    qed
  qed
qed

lemma has_done_grows:
  "journal_grows rid w w' \<Longrightarrow> has_done (events_of w rid) n \<Longrightarrow> has_done (events_of w' rid) n"
  by (auto simp: journal_grows_def grows_def has_done_def list_ex_iff)

lemma run_node_done:
  assumes "run_node e w rid node = (w', Inr result)"
  shows "has_done (events_of w' rid) node"
proof (cases "runs w rid")
  case None
  with assms show ?thesis by (simp add: run_node_unknown_run)
next
  case (Some rn)
  from run_node_journal[OF Some assms] show ?thesis
    by (auto simp: grows_def has_done_def)
qed

lemma done_recorded_mark:
  "done_recorded rid st \<Longrightarrow> has_done (events_of (world st) rid) n \<Longrightarrow>
     done_recorded rid (mark_completed st n v)"
  by (auto simp: done_recorded_def mark_completed_def set_add_def list_all_iff)

lemma done_recorded_grows:
  "done_recorded rid st \<Longrightarrow> journal_grows rid (world st) w' \<Longrightarrow>
     done_recorded rid (st\<lparr> world := w' \<rparr>)"
  by (auto simp: done_recorded_def list_all_iff intro: has_done_grows)

lemma run_if_needed_done:
  "run_if_needed e rid st node = Inl st' \<Longrightarrow> done_recorded rid st \<Longrightarrow> done_recorded rid st'"
proof -
  assume r: "run_if_needed e rid st node = Inl st'" and d: "done_recorded rid st"
  show ?thesis
  proof (cases "node \<in> set (completed st)")
    case True
    with r d show ?thesis by (simp add: run_if_needed_def)
  next
    case False
    with r obtain w' v where rn: "run_node e (world st) rid node = (w', Inr v)"
      and st': "st' = mark_completed (st\<lparr> world := w' \<rparr>) node v"
      by (auto simp: run_if_needed_def split: prod.splits sum.splits)
    have "done_recorded rid (st\<lparr> world := w' \<rparr>)"
      using done_recorded_grows[OF d run_node_grows[OF rn]] .
    then show ?thesis unfolding st' using run_node_done[OF rn]
      by (intro done_recorded_mark) simp_all
  qed
qed

lemma scan_ready_done:
  "scan_ready e rid adj rdy st pn = Inl (st1, pn1, sq) \<Longrightarrow> done_recorded rid st \<Longrightarrow>
     done_recorded rid st1"
proof (induction rdy arbitrary: st pn)
  case Nil
  then show ?case by simp
next
  case (Cons node rest)
  show ?case
  proof (cases "dict_items adj node \<noteq> [] \<and> parallel (hd (dict_items adj node))")
    case False
    with Cons.prems show ?thesis by (auto simp: Let_def)
  next
    case True
    with Cons.prems obtain st' where r: "run_if_needed e rid st node = Inl st'"
      and rec: "scan_ready e rid adj rest st' (pn @ map to_node (dict_items adj node)) = Inl (st1, pn1, sq)"
      by (auto simp: Let_def split: sum.splits)
    from Cons.IH[OF rec run_if_needed_done[OF r Cons.prems(2)]] show ?thesis .
  qed
qed

lemma gather_done:
  "gather e rid children w = (w', rs) \<Longrightarrow> (n, Inr v) \<in> set (zip children rs) \<Longrightarrow>
     has_done (events_of w' rid) n"
proof (induction children arbitrary: w w' rs)
  case Nil
  then show ?case by simp
next
  case (Cons child children)
  obtain w1 r where r: "run_node e w rid child = (w1, r)" by (cases "run_node e w rid child")
  obtain w2 rs' where g: "gather e rid children w1 = (w2, rs')" by (cases "gather e rid children w1")
  have eq: "w' = w2" "rs = r # rs'" using Cons.prems(1) r g by simp_all
  from Cons.prems(2) eq consider "n = child" "r = Inr v" | "(n, Inr v) \<in> set (zip children rs')"
    by auto
  then show ?case
  proof cases
    case 1
    then have "has_done (events_of w1 rid) n" using run_node_done[of e w rid child w1 v] r by simp
    then show ?thesis using has_done_grows[OF gather_grows[OF g]] eq by simp
  next
    case 2
    then show ?thesis using Cons.IH[OF g] eq by simp
  qed
qed

lemma mark_all_done:
  "done_recorded rid st \<Longrightarrow>
   list_all (\<lambda>(n, r). case r of Inl err \<Rightarrow> True | Inr v \<Rightarrow> has_done (events_of (world st) rid) n) zs \<Longrightarrow>
   done_recorded rid (mark_all st zs)"
proof (induction st zs rule: mark_all.induct)
  case (1 st)
  then show ?case by simp
next
  case (2 st node result rest)
  have "done_recorded rid (mark_completed st node result)"
    using 2(2,3) by (intro done_recorded_mark) simp_all
  then show ?case using 2 by simp
next
  case (3 st node err rest)
  then show ?case by simp
qed

lemma sched_iter_done:
  assumes "sched_iter e rid adj jg st = Continue st'" and "done_recorded rid st"
  shows "done_recorded rid st'"
proof -
  obtain st1 pn sq where scan: "scan_ready e rid adj (ready st) st [] = Inl (st1, pn, sq)"
    using assms by (auto simp: sched_iter_def split: sum.splits prod.splits)
  have d1: "done_recorded rid st1" using scan_ready_done[OF scan assms(2)] .
  show ?thesis
  proof (cases "pn = []")
    case False
    then obtain w2 results where g: "gather e rid pn (world st1) = (w2, results)"
      and st': "st' = (mark_all (st1\<lparr> world := w2 \<rparr>) (zip pn results))\<lparr> ready :=
          check_joins jg (completed (mark_all (st1\<lparr> world := w2 \<rparr>) (zip pn results)))
            (filter (\<lambda>n. n \<notin> set pn \<and> n \<notin> set (completed (mark_all (st1\<lparr> world := w2 \<rparr>) (zip pn results))))
               (ready (mark_all (st1\<lparr> world := w2 \<rparr>) (zip pn results)))) \<rparr>"
      using assms scan
      by (auto simp: sched_iter_def Let_def split: prod.splits option.splits)
    have d2: "done_recorded rid (st1\<lparr> world := w2 \<rparr>)"
      using done_recorded_grows[OF d1 gather_grows[OF g]] .
    have "list_all (\<lambda>(n, r). case r of Inl err \<Rightarrow> True | Inr v \<Rightarrow>
             has_done (events_of (world (st1\<lparr> world := w2 \<rparr>)) rid) n) (zip pn results)"
      using gather_done[OF g] by (auto simp: list_all_iff split: sum.splits)
    from mark_all_done[OF d2 this] show ?thesis
      by (simp add: st' done_recorded_def)
  next
    case True
    from assms scan True obtain node st2 where
      r: "run_if_needed e rid st1 node = Inl st2"
      and st': "st' = st2\<lparr> ready := enqueue_children (events_of (world st2) rid) jg (completed st2) node
                 (dict_items adj node) (remove1 node (ready st2)) \<rparr>"
      by (auto simp: sched_iter_def Let_def split: option.splits if_splits sum.splits)
    from run_if_needed_done[OF r d1] show ?thesis by (simp add: st' done_recorded_def)
  qed
qed

lemma exec_loop_done:
  "exec_loop e rid adj jg st = (st', None) \<Longrightarrow> done_recorded rid st \<Longrightarrow> done_recorded rid st'"
proof (induction e rid adj jg st rule: exec_loop.induct)
  case (1 e rid adj jg st)
  show ?case
  proof (cases "ready st = []")
    case True
    with "1.prems" show ?thesis by simp
  next
    case False
    show ?thesis
    proof (cases "sched_iter e rid adj jg st")
      case (Continue st1)
      with False "1.prems" have "exec_loop e rid adj jg st1 = (st', None)" by simp
      from "1.IH"[OF False Continue this sched_iter_done[OF Continue "1.prems"(2)]]
      show ?thesis .
    next
      case (Break st1)
      then obtain sq where "scan_ready e rid adj (ready st) st [] = Inl (st1, [], sq)"
        by (auto simp: sched_iter_def Let_def split: sum.splits prod.splits option.splits if_splits)
      from scan_ready_done[OF this "1.prems"(2)] Break False "1.prems"(1) show ?thesis by simp
    next
      case (Raise st1 err)
      with False "1.prems" show ?thesis by simp
    qed
  qed
qed

text \<open>
  Every node that is in \<open>ready\<close> is run before the loop ends with \<open>ready\<close> empty: the
  journal then holds its \<open>node_done\<close>.
\<close>

lemma ready_nodes_are_run:
  assumes "exec_loop e rid adj jg st = (st', None)" and "ready st' = []"
    and "done_recorded rid st" and "n \<in> set (ready st)"
  shows "n \<in> set (completed st') \<and> has_done (events_of (world st') rid) n"
proof -
  have "n \<in> set (completed st')" using exec_loop_completes_ready[OF assms(1,2)] assms(4) by auto
  moreover have "done_recorded rid st'" using exec_loop_done[OF assms(1,3)] .
  ultimately show ?thesis by (auto simp: done_recorded_def list_all_iff)
qed

text \<open>
  C4, amended: for an edge with a non-empty \<open>on\<close> that the sequential step handles (the
  turn is a sequential step on its source \<open>node\<close>, the edge is the only one from \<open>node\<close>
  to its child, and the child is not waiting in \<open>ready\<close> already), the turn runs \<open>node\<close>
  and then enqueues the child if and only if the journal holds an event of \<open>node\<close> whose
  type is in \<open>on\<close>, the join sources of the child, if it has any, are all completed, and
  the child is not completed. An enqueued child is dispatched: when the loop goes on to
  end with \<open>ready\<close> empty, the journal holds the child's \<open>node_done\<close>. The turn ends the
  loop only for the node with the empty name, and raises only when \<open>node\<close> itself
  raised.
\<close>

theorem sequential_edge_gate:
  assumes "sequential_turn e rid adj st node"
    and "ed \<in> set (dict_items adj node)"
    and "on ed \<noteq> []"
    and "filter (\<lambda>ed'. to_node ed' = to_node ed) (dict_items adj node) = [ed]"
    and "to_node ed \<notin> set (remove1 node (ready st))"
  shows "(case sched_iter e rid adj jg st of
            Continue st' \<Rightarrow>
              node \<in> set (completed st')
              \<and> (to_node ed \<in> set (ready st') \<longleftrightarrow>
                   edge_matches (events_of (world st') rid) node ed
                   \<and> join_ready jg (completed st') (to_node ed)
                   \<and> to_node ed \<notin> set (completed st'))
              \<and> (to_node ed \<in> set (ready st') \<and> done_recorded rid st
                   \<and> snd (exec_loop e rid adj jg st') = None
                   \<and> ready (fst (exec_loop e rid adj jg st')) = [] \<longrightarrow>
                   has_done (events_of (world (fst (exec_loop e rid adj jg st'))) rid) (to_node ed))
          | Break st' \<Rightarrow> node = []
          | Raise st' err \<Rightarrow> node \<notin> set (completed st'))"
proof -
  from assms(1) obtain st1 where scan: "scan_ready e rid adj (ready st) st [] = Inl (st1, [], Some node)"
    by (auto simp: sequential_turn_def split: sum.splits)
  from scan_ready_props[OF scan] have same: "ready st1 = ready st" "completed st1 = completed st"
    by auto
  have uniq: "list_ex (\<lambda>ed'. to_node ed' = to_node ed \<and> (on ed' = [] \<or> edge_matches evs node ed'))
                 (dict_items adj node) \<longleftrightarrow> edge_matches evs node ed" for evs
  proof -
    have "list_ex (\<lambda>ed'. to_node ed' = to_node ed \<and> (on ed' = [] \<or> edge_matches evs node ed'))
                 (dict_items adj node)
          \<longleftrightarrow> list_ex (\<lambda>ed'. on ed' = [] \<or> edge_matches evs node ed')
                 (filter (\<lambda>ed'. to_node ed' = to_node ed) (dict_items adj node))"
      by (auto simp: list_ex_iff)
    then show ?thesis using assms(3) by (simp add: assms(4))
  qed
  show ?thesis
  proof (cases "node = []")
    case True
    then show ?thesis using scan by (simp add: sched_iter_def)
  next
    case False
    show ?thesis
    proof (cases "run_if_needed e rid st1 node")
      case (Inr p)
      then obtain st2 err where p: "p = (st2, err)" by (cases p)
      have "node \<notin> set (completed st2)"
        using Inr p
        by (auto simp: run_if_needed_def split: if_splits prod.splits sum.splits)
      then show ?thesis using scan False Inr p by (simp add: sched_iter_def)
    next
      case (Inl st2)
      from run_if_needed_props[OF Inl] have st2: "ready st2 = ready st1"
        "set (completed st2) = insert node (set (completed st1))" by auto
      define st' where "st' = st2\<lparr> ready :=
          enqueue_children (events_of (world st2) rid) jg (completed st2) node
            (dict_items adj node) (remove1 node (ready st2)) \<rparr>"
      have it: "sched_iter e rid adj jg st = Continue st'"
        using scan False Inl by (simp add: sched_iter_def st'_def)
      have 1: "node \<in> set (completed st')" using st2 by (simp add: st'_def)
      have 2: "to_node ed \<in> set (ready st') \<longleftrightarrow>
                   edge_matches (events_of (world st') rid) node ed
                   \<and> join_ready jg (completed st') (to_node ed)
                   \<and> to_node ed \<notin> set (completed st')"
        using assms(5) st2 same by (auto simp: st'_def enqueue_children_mem uniq)
      have 3: "has_done (events_of (world (fst (exec_loop e rid adj jg st'))) rid) (to_node ed)"
        if "to_node ed \<in> set (ready st')" "done_recorded rid st"
          "snd (exec_loop e rid adj jg st') = None" "ready (fst (exec_loop e rid adj jg st')) = []"
      proof -
        have ex: "exec_loop e rid adj jg st' = (fst (exec_loop e rid adj jg st'), None)"
          using that(3) by (metis prod.collapse)
        from ready_nodes_are_run[OF ex that(4) sched_iter_done[OF it that(2)] that(1)]
        show ?thesis by simp
      qed
      show ?thesis unfolding it using 1 2 3 by simp
    qed
  qed
qed

text \<open>
  The first turn of the chain is such a step: \<open>planner\<close> runs, its \<open>plan_ready\<close> opens the
  gate, \<open>fe_fixer\<close> is enqueued, and the rest of the loop runs it.
\<close>

theorem sequential_edge_gate_witness:
  "sequential_turn demo_env ''run-1'' (build_adj (dag chain_graph)) chain_start ''planner''
   \<and> dict_items (build_adj (dag chain_graph)) ''planner'' = [hd (dag chain_graph)]
   \<and> on (hd (dag chain_graph)) = [''plan_ready'']
   \<and> to_node (hd (dag chain_graph)) = ''fe_fixer''
   \<and> done_recorded ''run-1'' chain_start
   \<and> (case sched_iter demo_env ''run-1'' (build_adj (dag chain_graph)) [] chain_start of
         Continue st' \<Rightarrow>
           ready st' = [''fe_fixer'']
           \<and> edge_matches (events_of (world st') ''run-1'') ''planner'' (hd (dag chain_graph))
           \<and> ''fe_fixer'' \<notin> set (completed st')
           \<and> snd (exec_loop demo_env ''run-1'' (build_adj (dag chain_graph)) [] st') = None
           \<and> ready (fst (exec_loop demo_env ''run-1'' (build_adj (dag chain_graph)) [] st')) = []
           \<and> has_done (events_of (world (fst (exec_loop demo_env ''run-1''
                  (build_adj (dag chain_graph)) [] st'))) ''run-1'') ''fe_fixer''
       | Break st' \<Rightarrow> False
       | Raise st' err \<Rightarrow> False)"
proof -
  let ?adj = "build_adj (dag chain_graph)"
  let ?ed = "hd (dag chain_graph)"
  have h1: "sequential_turn demo_env ''run-1'' ?adj chain_start ''planner''" by code_simp
  have h2: "dict_items ?adj ''planner'' = [?ed]" by code_simp
  have h3: "on ?ed = [''plan_ready'']" by code_simp
  have h4: "to_node ?ed = ''fe_fixer''" by code_simp
  have h5: "to_node ?ed \<notin> set (remove1 ''planner'' (ready chain_start))" by code_simp
  have h6: "done_recorded ''run-1'' chain_start" by code_simp
  have r: "(case sched_iter demo_env ''run-1'' ?adj [] chain_start of
              Continue st' \<Rightarrow>
                ready st' = [''fe_fixer'']
                \<and> snd (exec_loop demo_env ''run-1'' ?adj [] st') = None
                \<and> ready (fst (exec_loop demo_env ''run-1'' ?adj [] st')) = []
            | Break st' \<Rightarrow> False | Raise st' err \<Rightarrow> False)"
    by code_simp
  then obtain st' where c: "sched_iter demo_env ''run-1'' ?adj [] chain_start = Continue st'"
    and rd: "ready st' = [''fe_fixer'']"
      "snd (exec_loop demo_env ''run-1'' ?adj [] st') = None"
      "ready (fst (exec_loop demo_env ''run-1'' ?adj [] st')) = []"
    by (cases "sched_iter demo_env ''run-1'' ?adj [] chain_start") auto
  from sequential_edge_gate[OF h1, of ?ed "[]"] h2 h3 h4 h5 h6 c rd
  have "edge_matches (events_of (world st') ''run-1'') ''planner'' ?ed
        \<and> ''fe_fixer'' \<notin> set (completed st')
        \<and> has_done (events_of (world (fst (exec_loop demo_env ''run-1'' ?adj [] st'))) ''run-1'') ''fe_fixer''"
    by simp
  with h1 h2 h3 h4 h6 c rd show ?thesis by simp
qed

text \<open>In the fan-out the gate is not consulted: the child runs though \<open>never\<close> was not emitted.\<close>

lemma fan_out_ignores_gate:
  "on (hd (dag gated_fan_out_graph)) = [''never'']
   \<and> \<not> edge_matches (events_of (fst (execute_graph demo_env (demo_world gated_fan_out_graph Map.empty) ''run-1'')) ''run-1'')
        ''planner'' (hd (dag gated_fan_out_graph))
   \<and> trace (fst (execute_graph demo_env (demo_world gated_fan_out_graph Map.empty) ''run-1'')) ''run-1'' =
     [(''system'', ''run_started''),
      (''planner'', ''context_compiled''), (''planner'', ''plan_ready''), (''planner'', ''node_done''),
      (''fe_fixer'', ''context_compiled''), (''fe_fixer'', ''patch_created''), (''fe_fixer'', ''node_done''),
      (''system'', ''run_completed'')]"
  by code_simp

section \<open>Replay (engine.py, \<open>replay_from\<close>)\<close>



text \<open>
  C2 at the failing input: \<open>run-1\<close> ran \<open>planner\<close> and then \<open>fe_fixer\<close>. Its replay from
  \<open>fe_fixer\<close> copies the four events before \<open>fe_fixer\<close>, among them \<open>node_done\<close> of
  \<open>planner\<close>, and then runs \<open>planner\<close> again before \<open>fe_fixer\<close>: \<open>execute_graph\<close> starts
  from an empty \<open>completed\<close> and the start nodes, whatever the journal holds. A replay
  from a step that does not occur copies all eight events and runs both nodes again.
\<close>

theorem replay_reruns_completed_nodes:
  "trace chain_done ''run-1'' =
     [(''system'', ''run_started''),
      (''planner'', ''context_compiled''), (''planner'', ''plan_ready''), (''planner'', ''node_done''),
      (''fe_fixer'', ''context_compiled''), (''fe_fixer'', ''patch_created''), (''fe_fixer'', ''node_done''),
      (''system'', ''run_completed'')]
   \<and> snd (replay_from demo_env chain_done ''run-1'' ''fe_fixer'') = Inr ''run-1-replay-fe_fixer''
   \<and> trace (fst (replay_from demo_env chain_done ''run-1'' ''fe_fixer'')) ''run-1-replay-fe_fixer'' =
     [(''system'', ''run_started''),
      (''planner'', ''context_compiled''), (''planner'', ''plan_ready''), (''planner'', ''node_done''),
      (''system'', ''run_started''),
      (''planner'', ''context_compiled''), (''planner'', ''plan_ready''), (''planner'', ''node_done''),
      (''fe_fixer'', ''context_compiled''), (''fe_fixer'', ''patch_created''), (''fe_fixer'', ''node_done''),
      (''system'', ''run_completed'')]
   \<and> length (trace (fst (replay_from demo_env chain_done ''run-1'' ''no_such_step'')) ''run-1-replay-no_such_step'')
       = 16"
  by code_simp

text \<open>The id of a replay is a function of the parent's id and the step.\<close>

lemma replay_from_id: "snd (replay_from e w rid from_step) = Inr c \<Longrightarrow> c = replay_id rid from_step"
  by (auto simp: replay_from_def Let_def split: option.splits prod.splits)

text \<open>
  C9 at the failing input: the second replay of \<open>run-1\<close> from \<open>fe_fixer\<close> returns the id of
  the first, which is in the run store by then; the record of the first child is replaced
  (its \<open>created_at\<close> changes) and so is its journal (the events stamped 9 to 16 are gone).
\<close>

theorem replay_id_reused:
  "snd (replay_from demo_env chain_done ''run-1'' ''fe_fixer'') = Inr ''run-1-replay-fe_fixer''
   \<and> map_option parent_run (runs chain_replayed ''run-1-replay-fe_fixer'') = Some (Some ''run-1'')
   \<and> snd (replay_from demo_env chain_replayed ''run-1'' ''fe_fixer'') = Inr ''run-1-replay-fe_fixer''
   \<and> map ts (events_of chain_replayed ''run-1-replay-fe_fixer'')
       = [''0'', ''1'', ''2'', ''3'', ''9'', ''10'', ''11'', ''12'', ''13'', ''14'', ''15'', ''16'']
   \<and> map ts (events_of (fst (replay_from demo_env chain_replayed ''run-1'' ''fe_fixer'')) ''run-1-replay-fe_fixer'')
       = [''0'', ''1'', ''2'', ''3'', ''18'', ''19'', ''20'', ''21'', ''22'', ''23'', ''24'', ''25'']
   \<and> map_option created_at (runs chain_replayed ''run-1-replay-fe_fixer'') = Some ''8''
   \<and> map_option created_at (runs (fst (replay_from demo_env chain_replayed ''run-1'' ''fe_fixer''))
        ''run-1-replay-fe_fixer'') = Some ''17''"
  by code_simp

end
